theory Spec2Isabelle
  imports Main "HOL-Library.Word"
begin

section \<open>Data model (bpe.types.ts)\<close>

text \<open>
  A JavaScript string is a sequence of UTF-16 code units. A token is a string; two tokens
  are equal when they have the same code units.
\<close>

type_synonym codeunit = "16 word"
type_synonym jsstring = "codeunit list"
type_synonym Token = jsstring

text \<open>
  \<open>BPEStep\<close>: the three nullable fields are options, \<open>None\<close> being \<open>null\<close>.
\<close>

record BPEStep =
  stepIndex :: nat
  mergedPair :: "(Token \<times> Token) option"
  frequency :: "nat option"
  newToken :: "Token option"
  tokens :: "Token list"

record BPEResult =
  steps :: "BPEStep list"

section \<open>The merge pass (mergePairInChunk)\<close>

text \<open>
  The source walks the chunk with an index \<open>i\<close> and pushes onto \<open>result\<close>:
  \<^verbatim>\<open>
  while (i < tokens.length) {
    if (i < tokens.length - 1 && tokens[i] === a && tokens[i + 1] === b) {
      result.push(merged); i += 2;
    } else { result.push(tokens[i]); i++; }
  }
  \<close>
  Both reads are guarded by the loop conditions, so no read is out of range.
\<close>

function mergePairInChunk_loop ::
  "Token list \<Rightarrow> Token \<Rightarrow> Token \<Rightarrow> Token \<Rightarrow> nat \<Rightarrow> Token list \<Rightarrow> Token list" where
  "mergePairInChunk_loop toks a b merged i result =
     (if i < length toks then
        (if i + 1 < length toks \<and> toks ! i = a \<and> toks ! (i + 1) = b
         then mergePairInChunk_loop toks a b merged (i + 2) (result @ [merged])
         else mergePairInChunk_loop toks a b merged (i + 1) (result @ [toks ! i]))
      else result)"
  by pat_completeness auto
termination
  by (relation "measure (\<lambda>(toks, a, b, merged, i, result). length toks - i)") auto

definition mergePairInChunk :: "Token list \<Rightarrow> Token \<times> Token \<Rightarrow> Token list" where
  "mergePairInChunk toks pair =
     (case pair of (a, b) \<Rightarrow> mergePairInChunk_loop toks a b (a @ b) 0 [])"

text \<open>
  The merge pass as the specification words it: scan from the left; where the next two
  tokens are exactly \<open>a\<close>, \<open>b\<close>, emit the concatenation and resume after both; otherwise
  emit the token and move on by one.
\<close>

fun merge_spec :: "Token \<Rightarrow> Token \<Rightarrow> Token list \<Rightarrow> Token list" where
  "merge_spec a b (x # y # rest) =
     (if x = a \<and> y = b then (a @ b) # merge_spec a b rest
      else x # merge_spec a b (y # rest))"
| "merge_spec a b [x] = [x]"
| "merge_spec a b [] = []"

section \<open>The byte-to-unicode table (bytesToUnicode)\<close>

text \<open>
  A JavaScript \<open>Map\<close> keeps its entries in insertion order; \<open>set\<close> on a key that is
  present replaces the value where the entry stands, and on a new key appends an entry.
  It is modelled as an association list with distinct keys.
\<close>

type_synonym ('k, 'v) jsmap = "('k \<times> 'v) list"

fun map_set :: "('k, 'v) jsmap \<Rightarrow> 'k \<Rightarrow> 'v \<Rightarrow> ('k, 'v) jsmap" where
  "map_set [] k v = [(k, v)]"
| "map_set ((k', v') # m) k v = (if k' = k then (k, v) # m else (k', v') # map_set m k v)"

definition map_get :: "('k, 'v) jsmap \<Rightarrow> 'k \<Rightarrow> 'v option" where
  "map_get m k = map_of m k"

text \<open>\<open>String.fromCharCode(n)\<close>: the one-unit string of \<open>n\<close> taken modulo \<open>2^16\<close>.\<close>

definition fromCharCode :: "nat \<Rightarrow> jsstring" where
  "fromCharCode n = [of_nat n]"

text \<open>
  The three inclusive ranges pushed first: \<open>!\<close> (33) to \<open>~\<close> (126), U+00A1 (161) to
  U+00AC (172), and U+00AE (174) to U+00FF (255).
\<close>

definition visible_bytes :: "nat list" where
  "visible_bytes = [33..<127] @ [161..<173] @ [174..<256]"

text \<open>
  The loop over \<open>b = 0, ..., 255\<close> carries \<open>bs\<close>, \<open>cs\<close> and \<open>n\<close>; \<open>bsSet\<close> is the set
  taken before the loop starts.
\<close>

definition remaining_step ::
  "nat list \<Rightarrow> nat \<Rightarrow> nat list \<times> nat list \<times> nat \<Rightarrow> nat list \<times> nat list \<times> nat" where
  "remaining_step bs0 b st =
     (case st of (bs, cs, n) \<Rightarrow>
        if b \<notin> set bs0 then (bs @ [b], cs @ [256 + n], n + 1) else (bs, cs, n))"

definition bytesToUnicode :: "(nat, jsstring) jsmap" where
  "bytesToUnicode =
     (case fold (remaining_step visible_bytes) [0..<256] (visible_bytes, visible_bytes, 0) of
        (bs, cs, n) \<Rightarrow>
          fold (\<lambda>i result. map_set result (bs ! i) (fromCharCode (cs ! i))) [0..<length bs] [])"

definition BYTE_TO_UNICODE :: "(nat, jsstring) jsmap" where
  "BYTE_TO_UNICODE = bytesToUnicode"

text \<open>
  The inverse table the concatenation invariant speaks of: the byte whose table entry is
  the one-unit string of \<open>c\<close>, if there is one.
\<close>

definition unicode_to_byte :: "codeunit \<Rightarrow> nat option" where
  "unicode_to_byte c = map_of (map (\<lambda>(b, s). (s, b)) BYTE_TO_UNICODE) [c]"

section \<open>Strings of the platform: code points, UTF-8, split\<close>

text \<open>
  The code points of a string, as \<open>TextEncoder\<close> and a regular expression with the \<open>u\<close>
  flag read it: a high surrogate directly followed by a low surrogate is one code point,
  every other code unit (a lone surrogate too) is a code point of its own. Each code
  point is kept together with the code units that spell it.
\<close>

definition is_high_surrogate :: "codeunit \<Rightarrow> bool" where
  "is_high_surrogate u \<longleftrightarrow> 0xD800 \<le> unat u \<and> unat u \<le> 0xDBFF"

definition is_low_surrogate :: "codeunit \<Rightarrow> bool" where
  "is_low_surrogate u \<longleftrightarrow> 0xDC00 \<le> unat u \<and> unat u \<le> 0xDFFF"

definition surrogate_pair :: "codeunit \<Rightarrow> codeunit \<Rightarrow> nat" where
  "surrogate_pair h l = 0x10000 + (unat h - 0xD800) * 0x400 + (unat l - 0xDC00)"

fun codePoints :: "jsstring \<Rightarrow> (nat \<times> jsstring) list" where
  "codePoints (h # l # rest) =
     (if is_high_surrogate h \<and> is_low_surrogate l
      then (surrogate_pair h l, [h, l]) # codePoints rest
      else (unat h, [h]) # codePoints (l # rest))"
| "codePoints [u] = [(unat u, [u])]"
| "codePoints [] = []"

text \<open>
  \<open>TextEncoder.encode\<close>: every lone surrogate is replaced by U+FFFD, and each scalar
  value is written in UTF-8. The bytes are the numbers read from the \<open>Uint8Array\<close>.
\<close>

definition scalar_value :: "nat \<Rightarrow> nat" where
  "scalar_value cp = (if 0xD800 \<le> cp \<and> cp \<le> 0xDFFF then 0xFFFD else cp)"

definition utf8_bytes :: "nat \<Rightarrow> nat list" where
  "utf8_bytes cp =
     (if cp < 0x80 then [cp]
      else if cp < 0x800 then [0xC0 + cp div 64, 0x80 + cp mod 64]
      else if cp < 0x10000 then
        [0xE0 + cp div 4096, 0x80 + (cp div 64) mod 64, 0x80 + cp mod 64]
      else
        [0xF0 + cp div 262144, 0x80 + (cp div 4096) mod 64,
         0x80 + (cp div 64) mod 64, 0x80 + cp mod 64])"

definition TextEncoder_encode :: "jsstring \<Rightarrow> nat list" where
  "TextEncoder_encode s = concat (map (\<lambda>c. utf8_bytes (scalar_value (fst c))) (codePoints s))"

text \<open>
  \<open>String.prototype.split\<close> with a separator of one code unit: the pieces between the
  occurrences of the separator, in order; a string without the separator is its only
  piece.
\<close>

fun split_unit :: "codeunit \<Rightarrow> jsstring \<Rightarrow> jsstring list" where
  "split_unit sep [] = [[]]"
| "split_unit sep (c # cs) =
     (if c = sep then [] # split_unit sep cs
      else (case split_unit sep cs of
              p # ps \<Rightarrow> (c # p) # ps
            | [] \<Rightarrow> [[c]]))"

section \<open>The pre-tokenizer (GPT2_PAT and String.prototype.match)\<close>

text \<open>
  The pattern is
  \<^verbatim>\<open>'s|'t|'re|'ve|'m|'ll|'d| ?\p{L}+| ?\p{N}+| ?[^\s\p{L}\p{N}]+|\s+(?!\S)|\s+\<close>
  with the flags \<open>g\<close> and \<open>u\<close>, so it is matched against code points. The Unicode
  tables behind \<open>\p{L}\<close> and \<open>\p{N}\<close> belong to the platform; the model takes them as
  the parameters \<open>L\<close> and \<open>N\<close>. \<open>\s\<close> is the fixed set of ECMAScript: the white space
  and line terminator code points.
\<close>

definition is_whitespace :: "nat \<Rightarrow> bool" where
  "is_whitespace cp \<longleftrightarrow>
     cp \<in> set [0x9, 0xA, 0xB, 0xC, 0xD, 0x20, 0xA0, 0x1680, 0x2028, 0x2029, 0x202F, 0x205F,
               0x3000, 0xFEFF]
     \<or> (0x2000 \<le> cp \<and> cp \<le> 0x200A)"

text \<open>The class \<open>[^\s\p{L}\p{N}]\<close>.\<close>

definition is_other :: "(nat \<Rightarrow> bool) \<Rightarrow> (nat \<Rightarrow> bool) \<Rightarrow> nat \<Rightarrow> bool" where
  "is_other L N cp \<longleftrightarrow> \<not> (is_whitespace cp \<or> L cp \<or> N cp)"

text \<open>
  Each matcher takes the code points from the current position on and returns the number
  of code points it matches, or \<open>None\<close>.

  A literal alternative such as \<open>'s\<close>:
\<close>

definition literal :: "nat list \<Rightarrow> nat list \<Rightarrow> nat option" where
  "literal w cs = (if take (length w) cs = w then Some (length w) else None)"

text \<open>\<open>C+\<close> at the end of an alternative: the longest run, which must not be empty.\<close>

definition plus_class :: "(nat \<Rightarrow> bool) \<Rightarrow> nat list \<Rightarrow> nat option" where
  "plus_class C cs = (let n = length (takeWhile C cs) in if 1 \<le> n then Some n else None)"

text \<open>
  \<open> ?C+\<close>: the optional space is greedy, so a space is taken first; when \<open>C+\<close> then fails,
  the matcher backtracks and tries \<open>C+\<close> from the space itself.
\<close>

definition opt_space_plus :: "(nat \<Rightarrow> bool) \<Rightarrow> nat list \<Rightarrow> nat option" where
  "opt_space_plus C cs =
     (case cs of
        [] \<Rightarrow> None
      | c # rest \<Rightarrow>
          if c = 0x20 then
            (case plus_class C rest of
               Some n \<Rightarrow> Some (n + 1)
             | None \<Rightarrow> plus_class C cs)
          else plus_class C cs)"

text \<open>
  \<open>\s+(?!\S)\<close>: the longest run of white space; if a character that is not white space
  follows, the run gives its last character back (then white space follows), which needs
  a run of at least two.
\<close>

definition whitespace_lookahead :: "nat list \<Rightarrow> nat option" where
  "whitespace_lookahead cs =
     (let n = length (takeWhile is_whitespace cs) in
      if n = 0 then None
      else if n = length cs then Some n
      else if 2 \<le> n then Some (n - 1)
      else None)"

text \<open>The alternatives are tried in the order of the pattern; the first that matches wins.\<close>

fun first_match :: "nat option list \<Rightarrow> nat option" where
  "first_match [] = None"
| "first_match (Some n # alts) = Some n"
| "first_match (None # alts) = first_match alts"

definition GPT2_PAT :: "(nat \<Rightarrow> bool) \<Rightarrow> (nat \<Rightarrow> bool) \<Rightarrow> nat list \<Rightarrow> nat option" where
  "GPT2_PAT L N cs =
     first_match
       [literal [0x27, 0x73] cs,
        literal [0x27, 0x74] cs,
        literal [0x27, 0x72, 0x65] cs,
        literal [0x27, 0x76, 0x65] cs,
        literal [0x27, 0x6D] cs,
        literal [0x27, 0x6C, 0x6C] cs,
        literal [0x27, 0x64] cs,
        opt_space_plus L cs,
        opt_space_plus N cs,
        opt_space_plus (is_other L N) cs,
        whitespace_lookahead cs,
        plus_class is_whitespace cs]"

text \<open>
  \<open>text.match(GPT2_PAT)\<close> with the \<open>g\<close> flag: starting at the first code point, match
  at the current position; on a match the matched substring is collected and the scan
  resumes behind it (one code point further when the match is empty); when nothing
  matches at a position the scan moves on by one code point; at the end of the text the
  scan stops. The result \<open>null\<close> (no match at all) is the empty list.
\<close>

function match_all ::
  "(nat \<Rightarrow> bool) \<Rightarrow> (nat \<Rightarrow> bool) \<Rightarrow> (nat \<times> jsstring) list \<Rightarrow> jsstring list" where
  "match_all L N [] = []"
| "match_all L N (c # cs) =
     (case GPT2_PAT L N (map fst (c # cs)) of
        None \<Rightarrow> match_all L N cs
      | Some n \<Rightarrow>
          if n = 0 then [] # match_all L N cs
          else concat (map snd (take n (c # cs))) # match_all L N (drop n (c # cs)))"
  by pat_completeness auto
termination
  by (relation "measure (\<lambda>(L, N, cs). length cs)") auto

text \<open>
  The letter and digit tables restricted to ASCII, to run the model on ASCII texts.
\<close>

definition ascii_letter :: "nat \<Rightarrow> bool" where
  "ascii_letter cp \<longleftrightarrow> (0x41 \<le> cp \<and> cp \<le> 0x5A) \<or> (0x61 \<le> cp \<and> cp \<le> 0x7A)"

definition ascii_digit :: "nat \<Rightarrow> bool" where
  "ascii_digit cp \<longleftrightarrow> 0x30 \<le> cp \<and> cp \<le> 0x39"

section \<open>The engine (encodeChunk, countPairsAcrossChunks, runBPE)\<close>

text \<open>
  \<open>BYTE_TO_UNICODE.get(b)!\<close> asserts that the byte is in the table. The model checks the
  assertion: a missing byte gives no result.
\<close>

definition encodeChunk :: "jsstring \<Rightarrow> Token list option" where
  "encodeChunk chunk = those (map (map_get BYTE_TO_UNICODE) (TextEncoder_encode chunk))"

text \<open>\<open>PAIR_SEP\<close> is the string of the single code unit 0.\<close>

definition PAIR_SEP :: jsstring where
  "PAIR_SEP = [0]"

text \<open>
  The inner loop runs over \<open>i = 0, ..., tokens.length - 2\<close> (over nothing when the chunk
  has fewer than two tokens), so both reads are in range.
\<close>

definition count_pair :: "Token list \<Rightarrow> nat \<Rightarrow> (jsstring, nat) jsmap \<Rightarrow> (jsstring, nat) jsmap" where
  "count_pair toks i counts =
     (let key = toks ! i @ PAIR_SEP @ toks ! (i + 1)
      in map_set counts key ((case map_get counts key of None \<Rightarrow> 0 | Some c \<Rightarrow> c) + 1))"

definition count_chunk :: "Token list \<Rightarrow> (jsstring, nat) jsmap \<Rightarrow> (jsstring, nat) jsmap" where
  "count_chunk toks counts = fold (count_pair toks) [0..<length toks - 1] counts"

definition countPairsAcrossChunks :: "Token list list \<Rightarrow> (jsstring, nat) jsmap" where
  "countPairsAcrossChunks chunks = fold count_chunk chunks []"

text \<open>The selection loop of \<open>runBPE\<close> over the entries of \<open>counts\<close>, in insertion order.\<close>

definition select_step :: "jsstring \<times> nat \<Rightarrow> jsstring \<times> nat \<Rightarrow> jsstring \<times> nat" where
  "select_step entry best =
     (case entry of (key, freq) \<Rightarrow>
      case best of (bestKey, bestFreq) \<Rightarrow>
        if freq > bestFreq then (key, freq) else (bestKey, bestFreq))"

definition select_best :: "(jsstring, nat) jsmap \<Rightarrow> jsstring \<times> nat" where
  "select_best counts = fold select_step counts ([], 0)"

text \<open>
  \<open>bestKey.split(PAIR_SEP) as [Token, Token]\<close> asserts that the split has two pieces.
  The model checks the assertion: any other number of pieces gives no result.
\<close>

definition as_pair :: "jsstring list \<Rightarrow> (Token \<times> Token) option" where
  "as_pair pieces = (case pieces of [a, b] \<Rightarrow> Some (a, b) | _ \<Rightarrow> None)"

definition merged_step :: "nat \<Rightarrow> Token \<times> Token \<Rightarrow> nat \<Rightarrow> Token list list \<Rightarrow> BPEStep" where
  "merged_step idx pair freq chunks =
     \<lparr>stepIndex = idx, mergedPair = Some pair, frequency = Some freq,
      newToken = Some (fst pair @ snd pair), tokens = concat chunks\<rparr>"

text \<open>
  The \<open>while (true)\<close> loop. Nothing in its text bounds the number of rounds, so it is a
  partial function: \<open>None\<close> stands for no result (the loop does not return, or one of the
  two assertions above fails). \<open>maxMerges\<close> is \<open>None\<close> when the argument is left out
  (\<open>undefined\<close>) and an integer otherwise. \<open>PAIR_SEP\<close> has one code unit, so splitting at
  \<open>PAIR_SEP\<close> is splitting at that code unit.
\<close>

partial_function (option) runBPE_loop ::
  "int option \<Rightarrow> Token list list \<Rightarrow> nat \<Rightarrow> BPEStep list \<Rightarrow> BPEStep list option" where
  "runBPE_loop maxMerges chunks idx stps =
     (let counts = countPairsAcrossChunks chunks in
      if length counts = 0 then Some stps
      else
        case select_best counts of (bestKey, bestFreq) \<Rightarrow>
          if bestFreq < 2 then Some stps
          else if (case maxMerges of None \<Rightarrow> False | Some k \<Rightarrow> int idx > k) then Some stps
          else
            (case as_pair (split_unit (hd PAIR_SEP) bestKey) of
               None \<Rightarrow> None
             | Some pair \<Rightarrow>
                 let chunks' = map (\<lambda>chunk. mergePairInChunk chunk pair) chunks
                 in runBPE_loop maxMerges chunks' (idx + 1)
                      (stps @ [merged_step idx pair bestFreq chunks'])))"

declare runBPE_loop.simps [code]

definition initial_step :: "Token list list \<Rightarrow> BPEStep" where
  "initial_step chunks =
     \<lparr>stepIndex = 0, mergedPair = None, frequency = None, newToken = None,
      tokens = concat chunks\<rparr>"

definition runBPE ::
  "(nat \<Rightarrow> bool) \<Rightarrow> (nat \<Rightarrow> bool) \<Rightarrow> jsstring \<Rightarrow> int option \<Rightarrow> BPEResult option" where
  "runBPE L N text maxMerges =
     (if length text = 0 then Some \<lparr>steps = []\<rparr>
      else
        let matches = match_all L N (codePoints text) in
        if length matches = 0 then Some \<lparr>steps = []\<rparr>
        else
          (case those (map encodeChunk matches) of
             None \<Rightarrow> None
           | Some chunks \<Rightarrow>
               map_option (\<lambda>s. \<lparr>steps = s\<rparr>)
                 (runBPE_loop maxMerges chunks 1 [initial_step chunks])))"

section \<open>Notions of the specification about the table\<close>

text \<open>
  The bytes the specification calls visible, and the remaining ones in increasing order.
\<close>

definition is_visible_byte :: "nat \<Rightarrow> bool" where
  "is_visible_byte b \<longleftrightarrow>
     (0x21 \<le> b \<and> b \<le> 0x7E) \<or> (0xA1 \<le> b \<and> b \<le> 0xAC) \<or> (0xAE \<le> b \<and> b \<le> 0xFF)"

definition remaining_bytes :: "nat list" where
  "remaining_bytes = filter (\<lambda>b. \<not> is_visible_byte b) [0..<256]"

text \<open>The code unit of the table entry of a byte, in closed form.\<close>

definition byte_unit :: "nat \<Rightarrow> nat" where
  "byte_unit b =
     (if is_visible_byte b then b
      else if b < 33 then 256 + b
      else if b < 161 then 162 + b
      else 323)"

section \<open>Notions used to state and prove the properties\<close>

text \<open>
  The adjacent pairs of a chunk in scan order, the pairs of all chunks in the order of the
  counting scan, and the key under which a pair is counted.
\<close>

definition chunk_pairs :: "Token list \<Rightarrow> (Token \<times> Token) list" where
  "chunk_pairs toks = zip toks (tl toks)"

definition all_pairs :: "Token list list \<Rightarrow> (Token \<times> Token) list" where
  "all_pairs chunks = concat (map chunk_pairs chunks)"

definition pair_key :: "Token \<times> Token \<Rightarrow> jsstring" where
  "pair_key p = fst p @ PAIR_SEP @ snd p"

text \<open>No token of any chunk contains the code unit 0 (NUL).\<close>

definition nul_free :: "Token list list \<Rightarrow> bool" where
  "nul_free chunks \<longleftrightarrow> (\<forall>c \<in> set chunks. \<forall>t \<in> set c. 0 \<notin> set t)"

text \<open>The number of replacements the merge pass makes in a chunk.\<close>

fun merge_count :: "Token \<Rightarrow> Token \<Rightarrow> Token list \<Rightarrow> nat" where
  "merge_count a b (x # y # rest) =
     (if x = a \<and> y = b then 1 + merge_count a b rest else merge_count a b (y # rest))"
| "merge_count a b [x] = 0"
| "merge_count a b [] = 0"

text \<open>Counting one more occurrence of a key, as \<open>count_pair\<close> does for the key of a pair.\<close>

definition bump :: "('k, nat) jsmap \<Rightarrow> 'k \<Rightarrow> ('k, nat) jsmap" where
  "bump m k = map_set m k ((case map_get m k of None \<Rightarrow> 0 | Some c \<Rightarrow> c) + 1)"

text \<open>
  A table \<open>m\<close> that has counted the keys \<open>ks\<close>: one entry for each key that occurs, with
  the number of its occurrences, the entries standing in the order in which the keys were
  first met.
\<close>

definition counted :: "'k list \<Rightarrow> ('k, nat) jsmap \<Rightarrow> bool" where
  "counted ks m \<longleftrightarrow>
     distinct (map fst m) \<and> fst ` set m = set ks \<and>
     (\<forall>e \<in> set m. snd e = count_list ks (fst e)) \<and>
     (\<forall>i < length m. \<exists>p < length ks. ks ! p = fst (m ! i) \<and> set (take p ks) \<subseteq> fst ` set (take i m))"

text \<open>The three conditions under which the loop of \<open>runBPE\<close> breaks.\<close>

definition stops :: "int option \<Rightarrow> Token list list \<Rightarrow> nat \<Rightarrow> bool" where
  "stops maxMerges chunks idx \<longleftrightarrow>
     countPairsAcrossChunks chunks = [] \<or>
     snd (select_best (countPairsAcrossChunks chunks)) < 2 \<or>
     (case maxMerges of None \<Rightarrow> False | Some k \<Rightarrow> int idx > k)"

text \<open>
  The lists that \<open>codePoints\<close> can return: every entry is a code unit with its value or a
  surrogate pair with its code point, and a lone high surrogate is never directly followed
  by a low surrogate.
\<close>

definition point_ok :: "nat \<times> jsstring \<Rightarrow> bool" where
  "point_ok x =
     (case snd x of
        [u] \<Rightarrow> fst x = unat u
      | [h, l] \<Rightarrow> is_high_surrogate h \<and> is_low_surrogate l \<and> fst x = surrogate_pair h l
      | _ \<Rightarrow> False)"

definition lone_high :: "nat \<times> jsstring \<Rightarrow> bool" where
  "lone_high x = (case snd x of [u] \<Rightarrow> is_high_surrogate u | _ \<Rightarrow> False)"

definition starts_low :: "nat \<times> jsstring \<Rightarrow> bool" where
  "starts_low y = (case snd y of u # _ \<Rightarrow> is_low_surrogate u | [] \<Rightarrow> False)"

fun wf_points :: "(nat \<times> jsstring) list \<Rightarrow> bool" where
  "wf_points [] = True"
| "wf_points [x] = point_ok x"
| "wf_points (x # y # rest) =
     (point_ok x \<and> \<not> (lone_high x \<and> starts_low y) \<and> wf_points (y # rest))"

text \<open>The UTF-8 bytes of a list of code points.\<close>

definition utf8_points :: "(nat \<times> jsstring) list \<Rightarrow> nat list" where
  "utf8_points cs = concat (map (\<lambda>c. utf8_bytes (scalar_value (fst c))) cs)"

text \<open>The token of a byte, and the chunks \<open>runBPE\<close> starts its loop with.\<close>

definition byte_token :: "nat \<Rightarrow> Token" where
  "byte_token b = fromCharCode (byte_unit b)"

definition initial_chunks :: "(nat \<Rightarrow> bool) \<Rightarrow> (nat \<Rightarrow> bool) \<Rightarrow> jsstring \<Rightarrow> Token list list" where
  "initial_chunks L N text =
     map (\<lambda>chunk. map byte_token (TextEncoder_encode chunk)) (match_all L N (codePoints text))"

text \<open>
  The shape of the step at position \<open>i\<close> of a trace: it carries the index \<open>i\<close>; at
  position 0 the three nullable fields are null; at any later position they are set and
  the new token is the concatenation of the two tokens of the merged pair.
\<close>

definition step_shape :: "nat \<Rightarrow> BPEStep \<Rightarrow> bool" where
  "step_shape i s \<longleftrightarrow>
     stepIndex s = i \<and>
     (if i = 0 then mergedPair s = None \<and> frequency s = None \<and> newToken s = None
      else \<exists>a b f. mergedPair s = Some (a, b) \<and> frequency s = Some f \<and> newToken s = Some (a @ b))"

text \<open>
  How a step of a trace follows from the one before it: the merge pass for the recorded
  pair, run on some division of the earlier tokens into chunks, gives the later tokens;
  the token count drops by the number of replacements made, which is at least one and at
  most the recorded frequency.
\<close>

definition merge_transition :: "BPEStep \<Rightarrow> BPEStep \<Rightarrow> bool" where
  "merge_transition s s' \<longleftrightarrow>
     length (tokens s') < length (tokens s) \<and>
     (\<exists>chunks a b f.
        mergedPair s' = Some (a, b) \<and> frequency s' = Some f \<and>
        concat chunks = tokens s \<and>
        tokens s' = concat (map (\<lambda>chunk. mergePairInChunk chunk (a, b)) chunks) \<and>
        length (tokens s) = length (tokens s') + sum_list (map (merge_count a b) chunks) \<and>
        sum_list (map (merge_count a b) chunks) \<le> f)"

section \<open>Properties of the merge pass\<close>

lemmas mergePairInChunk_loop_unfold = mergePairInChunk_loop.simps

declare mergePairInChunk_loop.simps [simp del]

lemma merge_spec_drop:
  assumes "i < length toks"
  shows "merge_spec a b (drop i toks) =
     (if i + 1 < length toks \<and> toks ! i = a \<and> toks ! (i + 1) = b
      then (a @ b) # merge_spec a b (drop (i + 2) toks)
      else toks ! i # merge_spec a b (drop (i + 1) toks))"
proof (cases "i + 1 < length toks")
  case True
  have "drop i toks = toks ! i # toks ! (i + 1) # drop (i + 2) toks"
    using True by (simp add: Cons_nth_drop_Suc)
  moreover have "drop (i + 1) toks = toks ! (i + 1) # drop (i + 2) toks"
    using True by (simp add: Cons_nth_drop_Suc)
  ultimately show ?thesis using True by simp
next
  case False
  with assms have "drop i toks = [toks ! i]" and "drop (i + 1) toks = []"
    by (simp_all add: Cons_nth_drop_Suc [symmetric])
  with False show ?thesis by simp
qed

lemma mergePairInChunk_loop_spec:
  "mergePairInChunk_loop toks a b (a @ b) i result = result @ merge_spec a b (drop i toks)"
proof (induction toks a b "a @ b" i result rule: mergePairInChunk_loop.induct)
  case (1 toks a b i result)
  show ?case
  proof (cases "i < length toks")
    case False
    then show ?thesis by (simp add: mergePairInChunk_loop_unfold [of toks a b "a @ b" i])
  next
    case True
    show ?thesis
    proof (cases "i + 1 < length toks \<and> toks ! i = a \<and> toks ! (i + 1) = b")
      case hit: True
      have "mergePairInChunk_loop toks a b (a @ b) i result =
            mergePairInChunk_loop toks a b (a @ b) (i + 2) (result @ [a @ b])"
        using True hit by (subst mergePairInChunk_loop_unfold) simp
      also have "\<dots> = (result @ [a @ b]) @ merge_spec a b (drop (i + 2) toks)"
        using "1.hyps"(1) [OF True hit] by simp
      also have "\<dots> = result @ merge_spec a b (drop i toks)"
        using hit by (simp add: merge_spec_drop [OF True])
      finally show ?thesis .
    next
      case miss: False
      have "mergePairInChunk_loop toks a b (a @ b) i result =
            mergePairInChunk_loop toks a b (a @ b) (i + 1) (result @ [toks ! i])"
        using True miss by (subst mergePairInChunk_loop_unfold) auto
      also have "\<dots> = (result @ [toks ! i]) @ merge_spec a b (drop (i + 1) toks)"
        using "1.hyps"(2) [OF True miss] by simp
      also have "\<dots> = result @ merge_spec a b (drop i toks)"
        using miss merge_spec_drop [OF True, of a b] by auto
      finally show ?thesis .
    qed
  qed
qed

lemma mergePairInChunk_eq_spec: "mergePairInChunk toks (a, b) = merge_spec a b toks"
  by (simp add: mergePairInChunk_def mergePairInChunk_loop_spec)

text \<open>
  Claim C1. For every chunk and every pair \<open>(a, b)\<close>, the merge pass of the source (the
  index loop) computes the left-to-right, non-overlapping replacement: each occurrence of
  the adjacent tokens \<open>a\<close>, \<open>b\<close> met by the scan becomes the single token \<open>a + b\<close>
  and the scan resumes behind it. In particular, for two different tokens \<open>a\<close> and
  \<open>b\<close>, the chunk \<open>[a, a, b]\<close> becomes \<open>[a, ab]\<close>: the first \<open>a\<close> stays.
\<close>

theorem merge_pass_left_to_right:
  "mergePairInChunk toks (a, b) = merge_spec a b toks \<and>
   (a \<noteq> b \<longrightarrow> mergePairInChunk [a, a, b] (a, b) = [a, a @ b])"
  by (simp add: mergePairInChunk_def mergePairInChunk_loop_spec)

theorem merge_pass_left_to_right_witness:
  "mergePairInChunk [[0x61], [0x61], [0x62], [0x61], [0x62]] ([0x61], [0x62])
     = merge_spec [0x61] [0x62] [[0x61], [0x61], [0x62], [0x61], [0x62]] \<and>
   ([0x61] \<noteq> ([0x62] :: Token) \<and>
    mergePairInChunk [[0x61], [0x61], [0x62]] ([0x61], [0x62]) = [[0x61], [0x61, 0x62]])"
  using merge_pass_left_to_right [of "[[0x61], [0x61], [0x62], [0x61], [0x62]]" "[0x61]" "[0x62]"]
  by simp

section \<open>Properties of the byte-to-unicode table\<close>

declare upt_rec_numeral [simp del]

lemma map_set_fresh: "k \<notin> fst ` set m \<Longrightarrow> map_set m k v = m @ [(k, v)]"
  by (induction m) auto

lemma remaining_fold:
  "fold (remaining_step bs0) xs (bs, cs, n) =
     (bs @ filter (\<lambda>b. b \<notin> set bs0) xs,
      cs @ [256 + n..<256 + n + length (filter (\<lambda>b. b \<notin> set bs0) xs)],
      n + length (filter (\<lambda>b. b \<notin> set bs0) xs))"
proof (induction xs arbitrary: bs cs n)
  case Nil
  then show ?case by simp
next
  case (Cons x xs)
  show ?case
  proof (cases "x \<in> set bs0")
    case True
    then have "remaining_step bs0 x (bs, cs, n) = (bs, cs, n)"
      by (simp add: remaining_step_def)
    with True show ?thesis by (simp add: Cons.IH)
  next
    case False
    then have "remaining_step bs0 x (bs, cs, n) = (bs @ [x], cs @ [256 + n], n + 1)"
      by (simp add: remaining_step_def)
    with False show ?thesis
      by (simp add: Cons.IH upt_conv_Cons add.assoc)
  qed
qed

lemma set_fold_zip:
  assumes "distinct bs" "length cs = length bs" "k \<le> length bs"
  shows "fold (\<lambda>i result. map_set result (bs ! i) (f (cs ! i))) [0..<k] []
           = map (\<lambda>(b, c). (b, f c)) (zip (take k bs) (take k cs))"
  using assms(3)
proof (induction k)
  case 0
  then show ?case by simp
next
  case (Suc k)
  then have k: "k < length bs" by simp
  have fresh: "bs ! k \<notin> fst ` set (map (\<lambda>(b, c). (b, f c)) (zip (take k bs) (take k cs)))"
  proof
    assume "bs ! k \<in> fst ` set (map (\<lambda>(b, c). (b, f c)) (zip (take k bs) (take k cs)))"
    then have "bs ! k \<in> set (take k bs)"
      by (auto dest: set_zip_leftD)
    then obtain j where "j < k" "bs ! j = bs ! k"
      using k by (auto simp: in_set_conv_nth)
    with assms(1) k show False
      by (auto simp: distinct_conv_nth)
  qed
  show ?case
    using k assms(2) Suc.IH fresh
    by (simp add: map_set_fresh take_Suc_conv_app_nth)
qed

lemma set_visible_bytes: "b \<in> set visible_bytes \<longleftrightarrow> is_visible_byte b"
  by (auto simp: visible_bytes_def is_visible_byte_def)

lemma remaining_bytes_eq: "remaining_bytes = [0..<33] @ [127..<161] @ [173..<174]"
proof -
  have split: "[0..<256] = [0..<33] @ [33..<127] @ [127..<161] @ [161..<173] @ [173..<174] @ [174..<256]"
    using upt_add_eq_append [of 0 33 223] upt_add_eq_append [of 33 127 129]
      upt_add_eq_append [of 127 161 95] upt_add_eq_append [of 161 173 83]
      upt_add_eq_append [of 173 174 82]
    by simp
  have "filter (\<lambda>b. \<not> is_visible_byte b) [0..<33] = [0..<33]"
       "filter (\<lambda>b. \<not> is_visible_byte b) [33..<127] = []"
       "filter (\<lambda>b. \<not> is_visible_byte b) [127..<161] = [127..<161]"
       "filter (\<lambda>b. \<not> is_visible_byte b) [161..<173] = []"
       "filter (\<lambda>b. \<not> is_visible_byte b) [173..<174] = [173..<174]"
       "filter (\<lambda>b. \<not> is_visible_byte b) [174..<256] = []"
    by (simp_all only: filter_id_conv filter_empty_conv) (auto simp: is_visible_byte_def)
  then show ?thesis
    unfolding remaining_bytes_def split filter_append by simp
qed

lemma BYTE_TO_UNICODE_zip:
  "BYTE_TO_UNICODE =
     map (\<lambda>(b, c). (b, fromCharCode c))
       (zip (visible_bytes @ remaining_bytes) (visible_bytes @ [256..<324]))"
proof -
  have rem: "filter (\<lambda>b. b \<notin> set visible_bytes) [0..<256] = remaining_bytes"
    by (simp add: remaining_bytes_def set_visible_bytes)
  have len: "length remaining_bytes = 68"
    by (simp add: remaining_bytes_eq)
  have dist: "distinct (visible_bytes @ remaining_bytes)"
    by (auto simp: remaining_bytes_eq visible_bytes_def)
  have lens: "length (visible_bytes @ [256..<324]) = length (visible_bytes @ remaining_bytes)"
    by (simp add: len)
  show ?thesis
    unfolding BYTE_TO_UNICODE_def bytesToUnicode_def remaining_fold rem
    using set_fold_zip [OF dist lens order_refl, of fromCharCode]
    by (simp add: len)
qed

lemma map_of_zip_upt:
  assumes "b - a = d - c" "a \<le> b"
  shows "map_of (zip [a..<b] [c..<d]) x = (if a \<le> x \<and> x < b then Some (c + (x - a)) else None)"
  using assms
proof (induction "b - a" arbitrary: a c)
  case 0
  then show ?case by simp
next
  case (Suc k)
  then have lt: "a < b" "c < d" by auto
  then have "[a..<b] = a # [Suc a..<b]" "[c..<d] = c # [Suc c..<d]"
    by (simp_all add: upt_conv_Cons)
  moreover note lt
  moreover have "map_of (zip [Suc a..<b] [Suc c..<d]) x =
      (if Suc a \<le> x \<and> x < b then Some (Suc c + (x - Suc a)) else None)"
    using Suc by (intro Suc.hyps(1)) auto
  ultimately show ?case by auto
qed

lemma BYTE_TO_UNICODE_get:
  "map_get BYTE_TO_UNICODE b = (if b < 256 then Some (fromCharCode (byte_unit b)) else None)"
proof -
  have z: "zip (visible_bytes @ remaining_bytes) (visible_bytes @ [256..<324]) =
      zip [33..<127] [33..<127] @ zip [161..<173] [161..<173] @ zip [174..<256] [174..<256] @
      zip [0..<33] [256..<289] @ zip [127..<161] [289..<323] @ zip [173..<174] [323..<324]"
    using upt_add_eq_append [of 256 289 35] upt_add_eq_append [of 289 323 1]
    by (simp add: visible_bytes_def remaining_bytes_eq)
  show ?thesis
    unfolding map_get_def BYTE_TO_UNICODE_zip z map_of_map
    by (simp add: map_of_zip_upt map_add_def byte_unit_def is_visible_byte_def
        split: option.splits)
qed


lemma byte_unit_bounds: "b < 256 \<Longrightarrow> 33 \<le> byte_unit b \<and> byte_unit b < 324"
  by (auto simp: byte_unit_def is_visible_byte_def)

lemma byte_unit_inj: "b < 256 \<Longrightarrow> b' < 256 \<Longrightarrow> byte_unit b = byte_unit b' \<Longrightarrow> b = b'"
  by (auto simp: byte_unit_def is_visible_byte_def split: if_splits)

lemma unat_of_nat16: "n < 65536 \<Longrightarrow> unat (of_nat n :: codeunit) = n"
proof -
  assume "n < 65536"
  then have "n mod 2 ^ LENGTH(16) = n" by simp
  then show ?thesis by (simp only: unat_of_nat)
qed

lemma of_nat16_nonzero: "0 < n \<Longrightarrow> n < 65536 \<Longrightarrow> (of_nat n :: codeunit) \<noteq> 0"
proof
  assume n: "0 < n" "n < 65536" and "(of_nat n :: codeunit) = 0"
  then have "unat (of_nat n :: codeunit) = unat (0 :: codeunit)" by (simp only:)
  with n show False by (simp add: unat_of_nat16)
qed

lemma fromCharCode_inj:
  assumes "m < 65536" "n < 65536" "fromCharCode m = fromCharCode n"
  shows "m = n"
proof -
  from assms(3) have "unat (of_nat m :: codeunit) = unat (of_nat n :: codeunit)"
    by (simp add: fromCharCode_def)
  then show ?thesis by (simp only: unat_of_nat16 [OF assms(1)] unat_of_nat16 [OF assms(2)])
qed

lemma BYTE_TO_UNICODE_unit:
  assumes "b < 256"
  shows "map_get BYTE_TO_UNICODE b = Some [of_nat (byte_unit b)]"
    and "unat (of_nat (byte_unit b) :: codeunit) = byte_unit b"
    and "(of_nat (byte_unit b) :: codeunit) \<noteq> 0"
proof -
  have bounds: "0 < byte_unit b" "byte_unit b < 65536"
    using byte_unit_bounds [OF assms] by simp_all
  show "map_get BYTE_TO_UNICODE b = Some [of_nat (byte_unit b)]"
    using assms by (simp add: BYTE_TO_UNICODE_get fromCharCode_def)
  show "unat (of_nat (byte_unit b) :: codeunit) = byte_unit b"
    by (rule unat_of_nat16 [OF bounds(2)])
  show "(of_nat (byte_unit b) :: codeunit) \<noteq> 0"
    by (rule of_nat16_nonzero [OF bounds])
qed

lemma map_snd_map_zip:
  "length bs = length cs \<Longrightarrow> map snd (map (\<lambda>(b, c). (b, f c)) (zip bs cs)) = map f cs"
  by (induction bs cs rule: list_induct2) auto

lemma BYTE_TO_UNICODE_values_distinct: "distinct (map snd BYTE_TO_UNICODE)"
proof -
  have len: "length (visible_bytes @ remaining_bytes) = length (visible_bytes @ [256..<324])"
    by (simp add: remaining_bytes_eq)
  have "map snd BYTE_TO_UNICODE = map fromCharCode (visible_bytes @ [256..<324])"
    unfolding BYTE_TO_UNICODE_zip by (rule map_snd_map_zip [OF len])
  moreover have "distinct (visible_bytes @ [256..<324])"
    by (auto simp: visible_bytes_def)
  moreover have "inj_on fromCharCode (set (visible_bytes @ [256..<324]))"
    by (rule inj_onI, rule fromCharCode_inj) (auto simp: visible_bytes_def)
  ultimately show ?thesis by (simp only: distinct_map simp_thms)
qed

lemma unicode_to_byte_inverse:
  assumes "map_get BYTE_TO_UNICODE b = Some [c]"
  shows "unicode_to_byte c = Some b"
proof -
  have "(b, [c]) \<in> set BYTE_TO_UNICODE"
    using assms by (simp add: map_get_def map_of_SomeD)
  then have "([c], b) \<in> set (map (\<lambda>(b, s). (s, b)) BYTE_TO_UNICODE)"
    by force
  moreover have "map fst (map (\<lambda>(b, s). (s, b)) BYTE_TO_UNICODE) = map snd BYTE_TO_UNICODE"
    by (simp add: case_prod_beta o_def)
  ultimately show ?thesis
    unfolding unicode_to_byte_def
    using BYTE_TO_UNICODE_values_distinct by (intro map_of_is_SomeI) (simp_all only:)
qed

lemma length_remaining_bytes: "length remaining_bytes = 68"
  by (simp add: remaining_bytes_eq)

lemma remaining_bytes_nth_value:
  assumes "i < 68"
  shows "remaining_bytes ! i = (if i < 33 then i else if i < 67 then i + 94 else 173)"
proof -
  consider "i < 33" | "33 \<le> i" "i < 67" | "i = 67" using assms by linarith
  then show ?thesis
  proof cases
    case 1
    then show ?thesis by (simp add: remaining_bytes_eq nth_append)
  next
    case 2
    then have k: "i - 33 < 34" by linarith
    then have "([127..<161] @ [173..<174]) ! (i - 33) = 127 + (i - 33)"
      by (simp add: nth_append)
    with 2 show ?thesis by (simp add: remaining_bytes_eq nth_append)
  next
    case 3
    then show ?thesis by (simp add: remaining_bytes_eq nth_append)
  qed
qed

lemma remaining_bytes_nth: "i < length remaining_bytes \<Longrightarrow> byte_unit (remaining_bytes ! i) = 256 + i"
  by (simp add: length_remaining_bytes remaining_bytes_nth_value byte_unit_def is_visible_byte_def)

lemma remaining_bytes_less: "i < length remaining_bytes \<Longrightarrow> remaining_bytes ! i < 256"
  by (simp add: length_remaining_bytes remaining_bytes_nth_value)


lemma BYTE_TO_UNICODE_inj: "inj_on (map_get BYTE_TO_UNICODE) {..< 256}"
proof (rule inj_onI)
  fix x y assume "x \<in> {..< (256::nat)}" "y \<in> {..< (256::nat)}"
    and eq: "map_get BYTE_TO_UNICODE x = map_get BYTE_TO_UNICODE y"
  then have xy: "x < 256" "y < 256" by (simp_all only: lessThan_iff)
  from eq have "(of_nat (byte_unit x) :: codeunit) = of_nat (byte_unit y)"
    by (simp only: BYTE_TO_UNICODE_unit(1) [OF xy(1)] BYTE_TO_UNICODE_unit(1) [OF xy(2)] option.inject list.inject)
  then have "unat (of_nat (byte_unit x) :: codeunit) = unat (of_nat (byte_unit y) :: codeunit)"
    by (simp only:)
  then have "byte_unit x = byte_unit y"
    by (simp only: BYTE_TO_UNICODE_unit(2) [OF xy(1)] BYTE_TO_UNICODE_unit(2) [OF xy(2)])
  with xy show "x = y" by (rule byte_unit_inj)
qed

lemma BYTE_TO_UNICODE_visible: "is_visible_byte b \<Longrightarrow> \<exists>c. map_get BYTE_TO_UNICODE b = Some [c] \<and> unat c = b"
proof -
  assume "is_visible_byte b"
  then have b: "b < 256" and u: "byte_unit b = b"
    by (auto simp: is_visible_byte_def byte_unit_def)
  from BYTE_TO_UNICODE_unit(1,2) [OF b] show ?thesis
    unfolding u by (intro exI conjI)
qed

lemma BYTE_TO_UNICODE_remaining: "i < length remaining_bytes \<Longrightarrow>
    \<exists>c. map_get BYTE_TO_UNICODE (remaining_bytes ! i) = Some [c] \<and> unat c = 0x100 + i"
proof -
  assume i: "i < length remaining_bytes"
  from BYTE_TO_UNICODE_unit(1,2) [OF remaining_bytes_less [OF i]] show ?thesis
    unfolding remaining_bytes_nth [OF i] by (intro exI conjI)
qed

lemma remaining_bytes_sorted: "sorted_wrt (<) remaining_bytes"
  unfolding remaining_bytes_def by (rule sorted_wrt_filter) (rule sorted_wrt_upt)

lemma BYTE_TO_UNICODE_dom: "\<forall>b. (map_get BYTE_TO_UNICODE b \<noteq> None) = (b < 256)"
  by (simp add: BYTE_TO_UNICODE_get)

lemma BYTE_TO_UNICODE_single: "\<forall>b < 256. \<exists>c. map_get BYTE_TO_UNICODE b = Some [c]"
  by (simp add: BYTE_TO_UNICODE_get fromCharCode_def)

lemma BYTE_TO_UNICODE_card: "card (map_get BYTE_TO_UNICODE ` {..< 256}) = 256"
  by (simp only: card_image [OF BYTE_TO_UNICODE_inj] card_lessThan)

text \<open>
  Claim C6. The table has an entry for exactly the bytes 0 to 255, every entry is a string
  of one code unit, and different bytes have different entries (so the table is a
  bijection from the 256 bytes onto 256 one-character strings). A visible byte (one of
  the three ranges) is mapped to the character of its own code point, and the remaining
  bytes, taken in increasing order, are mapped to U+0100, U+0101, and so on.
\<close>

theorem byte_table_bijection:
  "(\<forall>b. (map_get BYTE_TO_UNICODE b \<noteq> None) = (b < 256)) \<and>
   (\<forall>b < 256. \<exists>c. map_get BYTE_TO_UNICODE b = Some [c]) \<and>
   inj_on (map_get BYTE_TO_UNICODE) {..< 256} \<and>
   card (map_get BYTE_TO_UNICODE ` {..< 256}) = 256 \<and>
   (\<forall>b. is_visible_byte b \<longrightarrow>
      (\<exists>c. map_get BYTE_TO_UNICODE b = Some [c] \<and> unat c = b)) \<and>
   sorted_wrt (<) remaining_bytes \<and>
   (\<forall>i < length remaining_bytes.
      \<exists>c. map_get BYTE_TO_UNICODE (remaining_bytes ! i) = Some [c] \<and> unat c = 0x100 + i)"
proof (intro conjI)
  show "\<forall>b. is_visible_byte b \<longrightarrow>
      (\<exists>c. map_get BYTE_TO_UNICODE b = Some [c] \<and> unat c = b)"
    by (intro allI impI) (rule BYTE_TO_UNICODE_visible)
  show "\<forall>i < length remaining_bytes.
      \<exists>c. map_get BYTE_TO_UNICODE (remaining_bytes ! i) = Some [c] \<and> unat c = 0x100 + i"
    by (intro allI impI) (rule BYTE_TO_UNICODE_remaining)
qed (rule BYTE_TO_UNICODE_dom BYTE_TO_UNICODE_single BYTE_TO_UNICODE_inj BYTE_TO_UNICODE_card remaining_bytes_sorted)+

theorem byte_table_bijection_witness:
  "is_visible_byte 0x41 \<and> map_get BYTE_TO_UNICODE 0x41 = Some [0x41] \<and>
   32 < length remaining_bytes \<and> remaining_bytes ! 32 = 0x20 \<and>
   map_get BYTE_TO_UNICODE 0x20 = Some [0x120]"
proof -
  have v: "is_visible_byte 0x41" by (simp add: is_visible_byte_def)
  have l: "32 < length remaining_bytes" by (simp add: length_remaining_bytes)
  have n: "remaining_bytes ! 32 = 0x20" by (simp add: remaining_bytes_nth_value)
  note vis = byte_table_bijection [THEN conjunct2, THEN conjunct2, THEN conjunct2,
      THEN conjunct2, THEN conjunct1, rule_format]
  note rem = byte_table_bijection [THEN conjunct2, THEN conjunct2, THEN conjunct2,
      THEN conjunct2, THEN conjunct2, THEN conjunct2, rule_format]
  from vis [OF v] obtain c where c: "map_get BYTE_TO_UNICODE 0x41 = Some [c]" "unat c = 0x41"
    by (elim exE conjE)
  from rem [OF l] obtain d where d: "map_get BYTE_TO_UNICODE (remaining_bytes ! 32) = Some [d]"
      "unat d = 0x100 + 32"
    by (elim exE conjE)
  from c(2) have "c = 0x41" by (simp add: word_unat_eq_iff)
  moreover from d(2) have "d = 0x120" by (simp add: word_unat_eq_iff)
  ultimately show ?thesis using v l n c(1) d(1) by (simp only: simp_thms)
qed

section \<open>Properties of the engine\<close>

subsection \<open>Splitting a pair key\<close>
lemma split_unit_no_sep: "sep \<notin> set s \<Longrightarrow> split_unit sep s = [s]"
  by (induction s) auto

lemma split_unit_key:
  "sep \<notin> set a \<Longrightarrow> sep \<notin> set b \<Longrightarrow> split_unit sep (a @ sep # b) = [a, b]"
  by (induction a) (auto simp: split_unit_no_sep)

lemma split_unit_nonempty: "split_unit sep s \<noteq> []"
  by (induction s) (auto split: list.splits)

lemma pair_key_inj:
  assumes "0 \<notin> set a" "0 \<notin> set b" "0 \<notin> set a'" "0 \<notin> set b'"
    and "pair_key (a, b) = pair_key (a', b')"
  shows "a = a' \<and> b = b'"
proof -
  have "split_unit 0 (a @ 0 # b) = split_unit 0 (a' @ 0 # b')"
    using assms(5) by (simp add: pair_key_def PAIR_SEP_def)
  then show ?thesis
    using assms(1-4) by (simp add: split_unit_key)
qed

subsection \<open>The merge pass on a chunk\<close>
lemma concat_merge_spec: "concat (merge_spec a b toks) = concat toks"
  by (induction a b toks rule: merge_spec.induct) auto

lemma length_merge_spec: "length (merge_spec a b toks) + merge_count a b toks = length toks"
  by (induction a b toks rule: merge_spec.induct) auto

lemma merge_count_pos: "(a, b) \<in> set (chunk_pairs toks) \<Longrightarrow> 0 < merge_count a b toks"
  unfolding chunk_pairs_def
  by (induction a b toks rule: merge_spec.induct) auto

lemma merge_count_le: "merge_count a b toks \<le> count_list (chunk_pairs toks) (a, b)"
  unfolding chunk_pairs_def
proof (induction a b toks rule: merge_spec.induct)
  case (1 a b x y rest)
  have "count_list (zip rest (tl rest)) (a, b) \<le> count_list (zip (y # rest) rest) (a, b)"
    by (cases rest) auto
  with 1 show ?case by auto
qed auto

lemma merge_spec_nul_free:
  "0 \<notin> set a \<Longrightarrow> 0 \<notin> set b \<Longrightarrow> \<forall>t \<in> set toks. 0 \<notin> set t \<Longrightarrow>
   \<forall>t \<in> set (merge_spec a b toks). 0 \<notin> set t"
  by (induction a b toks rule: merge_spec.induct) auto


subsection \<open>The frequency table\<close>
lemma map_set_present:
  "distinct (map fst m) \<Longrightarrow> k \<in> fst ` set m \<Longrightarrow>
   map_set m k v = map (\<lambda>e. if fst e = k then (k, v) else e) m"
proof (induction m)
  case Nil
  then show ?case by simp
next
  case (Cons e m)
  obtain k' v' where e: "e = (k', v')" by (cases e)
  show ?case
  proof (cases "k' = k")
    case True
    with Cons.prems e have "k \<notin> fst ` set m" by auto
    then have "map (\<lambda>e. if fst e = k then (k, v) else e) m = m"
      by (intro map_idI) auto
    with True e show ?thesis by simp
  next
    case False
    with Cons e show ?thesis by auto
  qed
qed

lemma map_get_absent: "k \<notin> fst ` set m \<Longrightarrow> map_get m k = None"
  by (simp add: map_get_def map_of_eq_None_iff)

lemma map_get_present: "distinct (map fst m) \<Longrightarrow> (k, v) \<in> set m \<Longrightarrow> map_get m k = Some v"
  by (simp add: map_get_def)

lemma bump_absent: "k \<notin> fst ` set m \<Longrightarrow> bump m k = m @ [(k, 1)]"
  by (simp add: bump_def map_get_absent map_set_fresh)

lemma bump_present:
  assumes "distinct (map fst m)" "(k, c) \<in> set m"
  shows "bump m k = map (\<lambda>e. if fst e = k then (k, c + 1) else e) m"
proof -
  have "k \<in> fst ` set m" using assms(2) by force
  then show ?thesis
    using assms by (simp add: bump_def map_get_present map_set_present)
qed

lemma counted_bump:
  assumes "counted ks m"
  shows "counted (ks @ [k]) (bump m k)"
proof (cases "k \<in> fst ` set m")
  case False
  then have b: "bump m k = m @ [(k, 1)]" by (rule bump_absent)
  from assms False have notin: "k \<notin> set ks" by (simp add: counted_def)
  have ord: "\<exists>p < length (ks @ [k]). (ks @ [k]) ! p = fst ((m @ [(k, 1)]) ! i) \<and>
        set (take p (ks @ [k])) \<subseteq> fst ` set (take i (m @ [(k, 1)]))"
    if i: "i < length (m @ [(k, 1)])" for i
  proof (cases "i < length m")
    case True
    with assms obtain p where p: "p < length ks" "ks ! p = fst (m ! i)"
        "set (take p ks) \<subseteq> fst ` set (take i m)"
      unfolding counted_def by blast
    with True show ?thesis
      by (intro exI [of _ p]) (simp add: nth_append)
  next
    case False
    with i have "i = length m" by simp
    moreover from assms have "set ks = fst ` set m" by (simp add: counted_def)
    ultimately show ?thesis
      by (intro exI [of _ "length ks"]) simp
  qed
  from assms False notin have "distinct (map fst (m @ [(k, 1)]))"
      "fst ` set (m @ [(k, 1)]) = set (ks @ [k])"
      "\<forall>e \<in> set (m @ [(k, 1)]). snd e = count_list (ks @ [k]) (fst e)"
    by (auto simp: counted_def)
  with ord show ?thesis
    unfolding b counted_def by blast
next
  case True
  then obtain c where c: "(k, c) \<in> set m" by force
  from assms have dist: "distinct (map fst m)" by (simp add: counted_def)
  let ?f = "\<lambda>e. if fst e = k then (k, c + 1) else e"
  have b: "bump m k = map ?f m" using dist c by (rule bump_present)
  have fst_f: "fst (?f e) = fst e" for e :: "'a \<times> nat" by simp
  have keys: "map fst (map ?f m) = map fst m"
    by (simp add: o_def)
  have c_eq: "c = count_list ks k"
    using assms c by (auto simp: counted_def)
  have vals: "\<forall>e \<in> set (map ?f m). snd e = count_list (ks @ [k]) (fst e)"
    using assms c_eq by (auto simp: counted_def)
  have ord: "\<exists>p < length (ks @ [k]). (ks @ [k]) ! p = fst (map ?f m ! i) \<and>
        set (take p (ks @ [k])) \<subseteq> fst ` set (take i (map ?f m))"
    if i: "i < length (map ?f m)" for i
  proof -
    from i have i': "i < length m" by simp
    with assms obtain p where p: "p < length ks" "ks ! p = fst (m ! i)"
        "set (take p ks) \<subseteq> fst ` set (take i m)"
      unfolding counted_def by blast
    have "map fst (take i (map ?f m)) = take i (map fst (map ?f m))"
      by (simp only: take_map)
    also have "\<dots> = map fst (take i m)"
      unfolding keys by (simp only: take_map)
    finally have "set (map fst (take i (map ?f m))) = set (map fst (take i m))"
      by (simp only:)
    then have "fst ` set (take i (map ?f m)) = fst ` set (take i m)"
      by (simp only: set_map)
    with p i' show ?thesis
      by (intro exI [of _ p]) (simp add: nth_append)
  qed
  have "distinct (map fst (map ?f m))" unfolding keys by (rule dist)
  moreover have "fst ` set (map ?f m) = set (ks @ [k])"
  proof -
    have "fst ` set (map ?f m) = set (map fst (map ?f m))" by (simp only: set_map)
    also have "\<dots> = fst ` set m" unfolding keys by (simp only: set_map)
    also have "\<dots> = set (ks @ [k])" using assms True by (auto simp: counted_def)
    finally show ?thesis .
  qed
  ultimately show ?thesis
    unfolding b counted_def using vals ord by blast
qed

lemma counted_fold: "counted ks (fold (\<lambda>k m. bump m k) ks [])"
proof (induction ks rule: rev_induct)
  case Nil
  show ?case by (simp add: counted_def)
next
  case (snoc k ks)
  then show ?case by (simp add: counted_bump)
qed


lemma chunk_keys:
  "map (\<lambda>i. toks ! i @ PAIR_SEP @ toks ! (i + 1)) [0..<length toks - 1] = map pair_key (chunk_pairs toks)"
  by (rule nth_equalityI) (auto simp: chunk_pairs_def pair_key_def nth_tl)

lemma count_chunk_keys:
  "count_chunk toks counts = fold (\<lambda>k m. bump m k) (map pair_key (chunk_pairs toks)) counts"
proof -
  have "count_pair toks = (\<lambda>k m. bump m k) \<circ> (\<lambda>i. toks ! i @ PAIR_SEP @ toks ! (i + 1))"
    by (rule ext, rule ext) (simp add: count_pair_def bump_def Let_def)
  then have "fold (count_pair toks) [0..<length toks - 1] counts =
      fold (\<lambda>k m. bump m k) (map (\<lambda>i. toks ! i @ PAIR_SEP @ toks ! (i + 1)) [0..<length toks - 1]) counts"
    by (simp only: fold_map)
  then show ?thesis by (simp only: chunk_keys count_chunk_def)
qed

lemma fold_chunks_keys:
  "fold count_chunk chunks m = fold (\<lambda>k m. bump m k) (map pair_key (all_pairs chunks)) m"
  by (induction chunks arbitrary: m) (simp_all add: all_pairs_def count_chunk_keys)

lemma countPairsAcrossChunks_keys:
  "countPairsAcrossChunks chunks = fold (\<lambda>k m. bump m k) (map pair_key (all_pairs chunks)) []"
  by (simp add: countPairsAcrossChunks_def fold_chunks_keys)

lemma countPairsAcrossChunks_counted:
  "counted (map pair_key (all_pairs chunks)) (countPairsAcrossChunks chunks)"
  by (simp add: countPairsAcrossChunks_keys counted_fold)

subsection \<open>The selection loop\<close>
lemma select_step_eq:
  "select_step (k', f') (bk, bf) = (if f' > bf then (k', f') else (bk, bf))"
  by (simp add: select_step_def)

lemma select_fold:
  assumes "fold select_step m (bk, bf) = (k, f)"
  shows "(\<forall>e \<in> set m. snd e \<le> f) \<and> bf \<le> f \<and>
     ((k, f) = (bk, bf) \<or>
      (\<exists>i < length m. m ! i = (k, f) \<and> bf < f \<and> (\<forall>j < i. snd (m ! j) < f)))"
  using assms
proof (induction m arbitrary: bk bf)
  case Nil
  then show ?case by simp
next
  case (Cons e m)
  obtain k' f' where e: "e = (k', f')" by (cases e)
  show ?case
  proof (cases "f' > bf")
    case True
    with Cons.prems e have "fold select_step m (k', f') = (k, f)"
      by (simp add: select_step_eq)
    from Cons.IH [OF this] have le: "\<forall>e \<in> set m. snd e \<le> f" "f' \<le> f"
      and alt: "(k, f) = (k', f') \<or>
        (\<exists>i < length m. m ! i = (k, f) \<and> f' < f \<and> (\<forall>j < i. snd (m ! j) < f))"
      by simp_all
    from alt have "\<exists>i < length (e # m). (e # m) ! i = (k, f) \<and> bf < f \<and> (\<forall>j < i. snd ((e # m) ! j) < f)"
    proof
      assume "(k, f) = (k', f')"
      with True e show ?thesis by (intro exI [of _ 0]) simp
    next
      assume "\<exists>i < length m. m ! i = (k, f) \<and> f' < f \<and> (\<forall>j < i. snd (m ! j) < f)"
      then obtain i where i: "i < length m" "m ! i = (k, f)" "f' < f" "\<forall>j < i. snd (m ! j) < f"
        by blast
      have "\<forall>j < Suc i. snd ((e # m) ! j) < f"
      proof (intro allI impI)
        fix j assume "j < Suc i"
        then show "snd ((e # m) ! j) < f"
          using i e by (cases j) auto
      qed
      with i True show ?thesis by (intro exI [of _ "Suc i"]) auto
    qed
    with le True e show ?thesis by auto
  next
    case False
    with Cons.prems e have "fold select_step m (bk, bf) = (k, f)"
      by (simp add: select_step_eq)
    from Cons.IH [OF this] have le: "\<forall>e \<in> set m. snd e \<le> f" "bf \<le> f"
      and alt: "(k, f) = (bk, bf) \<or>
        (\<exists>i < length m. m ! i = (k, f) \<and> bf < f \<and> (\<forall>j < i. snd (m ! j) < f))"
      by simp_all
    from alt have "(k, f) = (bk, bf) \<or>
      (\<exists>i < length (e # m). (e # m) ! i = (k, f) \<and> bf < f \<and> (\<forall>j < i. snd ((e # m) ! j) < f))"
    proof
      assume "(k, f) = (bk, bf)"
      then show ?thesis by simp
    next
      assume "\<exists>i < length m. m ! i = (k, f) \<and> bf < f \<and> (\<forall>j < i. snd (m ! j) < f)"
      then obtain i where i: "i < length m" "m ! i = (k, f)" "bf < f" "\<forall>j < i. snd (m ! j) < f"
        by blast
      have "\<forall>j < Suc i. snd ((e # m) ! j) < f"
      proof (intro allI impI)
        fix j assume "j < Suc i"
        then show "snd ((e # m) ! j) < f"
          using i e False by (cases j) auto
      qed
      with i have "\<exists>i < length (e # m). (e # m) ! i = (k, f) \<and> bf < f \<and> (\<forall>j < i. snd ((e # m) ! j) < f)"
        by (intro exI [of _ "Suc i"]) auto
      then show ?thesis ..
    qed
    with le False e show ?thesis by auto
  qed
qed

text \<open>What the selection returns, in terms of the scanned keys.\<close>

lemma select_best_keys:
  assumes "ks \<noteq> []" "select_best (fold (\<lambda>k m. bump m k) ks []) = (bk, bf)"
  shows "\<exists>p < length ks. ks ! p = bk \<and> bf = count_list ks bk \<and>
      (\<forall>k \<in> set ks. count_list ks k \<le> bf) \<and> (\<forall>j < p. count_list ks (ks ! j) < bf)"
proof -
  let ?m = "fold (\<lambda>k m. bump m k) ks []"
  have cnt: "counted ks ?m" by (rule counted_fold)
  then have keys: "fst ` set ?m = set ks"
    and vals: "\<And>e. e \<in> set ?m \<Longrightarrow> snd e = count_list ks (fst e)"
    and ord: "\<And>i. i < length ?m \<Longrightarrow> \<exists>p < length ks. ks ! p = fst (?m ! i) \<and>
        set (take p ks) \<subseteq> fst ` set (take i ?m)"
    by (simp_all add: counted_def)
  from assms(2) have sel: "(\<forall>e \<in> set ?m. snd e \<le> bf) \<and> 0 \<le> bf \<and>
     ((bk, bf) = ([], 0) \<or>
      (\<exists>i < length ?m. ?m ! i = (bk, bf) \<and> 0 < bf \<and> (\<forall>j < i. snd (?m ! j) < bf)))"
    unfolding select_best_def by (rule select_fold)
  have max: "\<forall>k \<in> set ks. count_list ks k \<le> bf"
  proof
    fix k assume "k \<in> set ks"
    with keys have "k \<in> fst ` set ?m" by simp
    then obtain e where e: "e \<in> set ?m" "fst e = k" by auto
    with sel vals [OF e(1)] show "count_list ks k \<le> bf" by auto
  qed
  from assms(1) obtain k0 where k0: "k0 \<in> set ks" by (cases ks) auto
  then have "0 < count_list ks k0" using count_list_0_iff [of ks k0] by simp
  with max k0 have "0 < bf" by fastforce
  with sel obtain i where i: "i < length ?m" "?m ! i = (bk, bf)" "\<forall>j < i. snd (?m ! j) < bf"
    by auto
  from ord [OF i(1)] i(2) obtain p where p: "p < length ks" "ks ! p = bk"
      "set (take p ks) \<subseteq> fst ` set (take i ?m)"
    by auto
  have "(bk, bf) \<in> set ?m" using i(1,2) by (metis nth_mem)
  from vals [OF this] have bf: "bf = count_list ks bk" by simp
  have before: "\<forall>j < p. count_list ks (ks ! j) < bf"
  proof (intro allI impI)
    fix j assume j: "j < p"
    with p(1) have "ks ! j \<in> set (take p ks)"
      by (auto simp: in_set_conv_nth intro!: exI [of _ j])
    with p(3) obtain e where e: "e \<in> set (take i ?m)" "fst e = ks ! j" by auto
    then obtain j' where j': "j' < i" "j' < length ?m" "?m ! j' = e"
      by (auto simp: in_set_conv_nth)
    then have "e \<in> set ?m" by (metis nth_mem)
    from vals [OF this] e(2) have "count_list ks (ks ! j) = snd e" by simp
    with i(3) j' show "count_list ks (ks ! j) < bf" by auto
  qed
  from p(1,2) bf max before show ?thesis by blast
qed

lemma counts_empty_iff: "fold (\<lambda>k m. bump m k) ks [] = [] \<longleftrightarrow> ks = []"
  using counted_fold [of ks] by (auto simp: counted_def)


subsection \<open>Pairs of chunks without NUL\<close>
lemma chunk_pairs_subset:
  assumes "(a, b) \<in> set (chunk_pairs toks)"
  shows "a \<in> set toks \<and> b \<in> set toks"
proof -
  from assms have "a \<in> set toks" "b \<in> set (tl toks)"
    unfolding chunk_pairs_def by (auto dest: set_zip_leftD set_zip_rightD)
  then show ?thesis by (auto dest: list.set_sel(2) [rotated])
qed

lemma all_pairs_nul_free:
  assumes "nul_free chunks" "(a, b) \<in> set (all_pairs chunks)"
  shows "0 \<notin> set a \<and> 0 \<notin> set b"
proof -
  from assms(2) obtain c where c: "c \<in> set chunks" "(a, b) \<in> set (chunk_pairs c)"
    by (auto simp: all_pairs_def)
  with chunk_pairs_subset [OF c(2)] assms(1) show ?thesis
    by (auto simp: nul_free_def)
qed

lemma pair_key_inj_on:
  assumes "nul_free chunks"
  shows "inj_on pair_key (set (all_pairs chunks))"
proof (rule inj_onI)
  fix p q assume p: "p \<in> set (all_pairs chunks)" and q: "q \<in> set (all_pairs chunks)"
    and eq: "pair_key p = pair_key q"
  obtain a b a' b' where pq: "p = (a, b)" "q = (a', b')" by (cases p, cases q)
  with all_pairs_nul_free [OF assms] p q
  have "0 \<notin> set a" "0 \<notin> set b" "0 \<notin> set a'" "0 \<notin> set b'" by blast+
  from pair_key_inj [OF this] eq pq show "p = q" by simp
qed

lemma split_pair_key:
  assumes "nul_free chunks" "q \<in> set (all_pairs chunks)"
  shows "as_pair (split_unit (hd PAIR_SEP) (pair_key q)) = Some q"
proof -
  obtain a b where q: "q = (a, b)" by (cases q)
  with all_pairs_nul_free [OF assms(1)] assms(2) have "0 \<notin> set a" "0 \<notin> set b" by blast+
  then show ?thesis
    by (simp add: q pair_key_def PAIR_SEP_def split_unit_key as_pair_def)
qed

text \<open>The selection, in terms of the pairs scanned.\<close>

lemma select_best_pairs:
  assumes nf: "nul_free chunks" and ne: "all_pairs chunks \<noteq> []"
    and sel: "select_best (countPairsAcrossChunks chunks) = (bestKey, bestFreq)"
  shows "\<exists>p < length (all_pairs chunks).
      bestKey = pair_key (all_pairs chunks ! p) \<and>
      as_pair (split_unit (hd PAIR_SEP) bestKey) = Some (all_pairs chunks ! p) \<and>
      bestFreq = count_list (all_pairs chunks) (all_pairs chunks ! p) \<and>
      (\<forall>q \<in> set (all_pairs chunks). count_list (all_pairs chunks) q \<le> bestFreq) \<and>
      (\<forall>j < p. count_list (all_pairs chunks) (all_pairs chunks ! j) < bestFreq)"
proof -
  let ?ps = "all_pairs chunks"
  let ?ks = "map pair_key ?ps"
  have cnt: "count_list ?ks (pair_key q) = count_list ?ps q" if "q \<in> set ?ps" for q
    using pair_key_inj_on [OF nf] that by (rule count_list_inj_map)
  from ne have "?ks \<noteq> []" by simp
  moreover from sel have "select_best (fold (\<lambda>k m. bump m k) ?ks []) = (bestKey, bestFreq)"
    by (simp only: countPairsAcrossChunks_keys)
  ultimately obtain p where p: "p < length ?ks" "?ks ! p = bestKey"
      "bestFreq = count_list ?ks bestKey"
      "\<forall>k \<in> set ?ks. count_list ?ks k \<le> bestFreq"
      "\<forall>j < p. count_list ?ks (?ks ! j) < bestFreq"
    using select_best_keys [of ?ks bestKey bestFreq] by blast
  from p(1) have lt: "p < length ?ps" by simp
  then have mem: "?ps ! p \<in> set ?ps" by simp
  from p(2) lt have key: "bestKey = pair_key (?ps ! p)" by simp
  have "as_pair (split_unit (hd PAIR_SEP) bestKey) = Some (?ps ! p)"
    unfolding key using nf mem by (rule split_pair_key)
  moreover have "bestFreq = count_list ?ps (?ps ! p)"
    using p(3) cnt [OF mem] by (simp add: key)
  moreover have "\<forall>q \<in> set ?ps. count_list ?ps q \<le> bestFreq"
  proof
    fix q assume q: "q \<in> set ?ps"
    then have "pair_key q \<in> set ?ks" by simp
    with p(4) have "count_list ?ks (pair_key q) \<le> bestFreq" by blast
    with cnt [OF q] show "count_list ?ps q \<le> bestFreq" by simp
  qed
  moreover have "\<forall>j < p. count_list ?ps (?ps ! j) < bestFreq"
  proof (intro allI impI)
    fix j assume j: "j < p"
    with lt have jl: "j < length ?ps" by simp
    from p(5) j have "count_list ?ks (?ks ! j) < bestFreq" by blast
    with jl cnt [of "?ps ! j"] show "count_list ?ps (?ps ! j) < bestFreq" by simp
  qed
  ultimately show ?thesis using lt key by blast
qed

lemma countPairsAcrossChunks_empty_iff:
  "countPairsAcrossChunks chunks = [] \<longleftrightarrow> all_pairs chunks = []"
  by (simp add: countPairsAcrossChunks_keys counts_empty_iff)


subsection \<open>The main loop\<close>
lemma runBPE_loop_stop:
  "stops mm chunks idx \<Longrightarrow> runBPE_loop mm chunks idx stps = Some stps"
  by (subst runBPE_loop.simps)
     (auto simp: stops_def Let_def split: prod.splits option.splits)

lemma runBPE_loop_go:
  assumes "\<not> stops mm chunks idx"
    and "select_best (countPairsAcrossChunks chunks) = (bk, bf)"
    and "as_pair (split_unit (hd PAIR_SEP) bk) = Some pair"
  shows "runBPE_loop mm chunks idx stps =
     runBPE_loop mm (map (\<lambda>chunk. mergePairInChunk chunk pair) chunks) (idx + 1)
       (stps @ [merged_step idx pair bf (map (\<lambda>chunk. mergePairInChunk chunk pair) chunks)])"
  using assms
  by (subst runBPE_loop.simps)
     (auto simp: stops_def Let_def split: prod.splits option.splits)

lemma length_concat_merge_le:
  "length (concat (map (merge_spec a b) chunks)) \<le> length (concat chunks)"
proof (induction chunks)
  case Nil
  show ?case by simp
next
  case (Cons c chunks)
  have "length (merge_spec a b c) \<le> length c"
    using length_merge_spec [of a b c] by simp
  with Cons show ?case by simp
qed

lemma length_concat_merge_less:
  assumes "(a, b) \<in> set (all_pairs chunks)"
  shows "length (concat (map (merge_spec a b) chunks)) < length (concat chunks)"
  using assms
proof (induction chunks)
  case Nil
  then show ?case by (simp add: all_pairs_def)
next
  case (Cons c chunks)
  have le: "length (merge_spec a b c) \<le> length c"
    using length_merge_spec [of a b c] by simp
  from Cons.prems have "(a, b) \<in> set (chunk_pairs c) \<or> (a, b) \<in> set (all_pairs chunks)"
    by (auto simp: all_pairs_def)
  then show ?case
  proof
    assume "(a, b) \<in> set (chunk_pairs c)"
    then have "length (merge_spec a b c) < length c"
      using merge_count_pos [of a b c] length_merge_spec [of a b c] by simp
    with length_concat_merge_le [of a b chunks] show ?thesis by simp
  next
    assume "(a, b) \<in> set (all_pairs chunks)"
    with Cons.IH le show ?thesis by simp
  qed
qed

lemma nul_free_merge:
  assumes "nul_free chunks" "(a, b) \<in> set (all_pairs chunks)"
  shows "nul_free (map (merge_spec a b) chunks)"
proof -
  from all_pairs_nul_free [OF assms] have "0 \<notin> set a" "0 \<notin> set b" by simp_all
  with assms(1) show ?thesis
    unfolding nul_free_def using merge_spec_nul_free [of a b] by auto
qed

text \<open>One round of the loop from a state without NUL that does not stop.\<close>

lemma runBPE_loop_round:
  assumes nf: "nul_free chunks" and go: "\<not> stops mm chunks idx"
  shows "\<exists>a b bf.
      (a, b) \<in> set (all_pairs chunks) \<and>
      select_best (countPairsAcrossChunks chunks) = (pair_key (a, b), bf) \<and>
      bf = count_list (all_pairs chunks) (a, b) \<and> 2 \<le> bf \<and>
      runBPE_loop mm chunks idx stps =
        runBPE_loop mm (map (merge_spec a b) chunks) (idx + 1)
          (stps @ [merged_step idx (a, b) bf (map (merge_spec a b) chunks)])"
proof -
  obtain bk bf where sel: "select_best (countPairsAcrossChunks chunks) = (bk, bf)"
    by (cases "select_best (countPairsAcrossChunks chunks)")
  from go have ne: "all_pairs chunks \<noteq> []" and bf: "2 \<le> bf"
    using sel by (auto simp: stops_def countPairsAcrossChunks_empty_iff)
  from select_best_pairs [OF nf ne sel] obtain p where p: "p < length (all_pairs chunks)"
      "bk = pair_key (all_pairs chunks ! p)"
      "as_pair (split_unit (hd PAIR_SEP) bk) = Some (all_pairs chunks ! p)"
      "bf = count_list (all_pairs chunks) (all_pairs chunks ! p)"
    by blast
  obtain a b where ab: "all_pairs chunks ! p = (a, b)" by (cases "all_pairs chunks ! p")
  have merge: "(\<lambda>chunk. mergePairInChunk chunk (a, b)) = merge_spec a b"
    by (rule ext) (rule mergePairInChunk_eq_spec)
  from p(1) ab have "(a, b) \<in> set (all_pairs chunks)" by (metis nth_mem)
  moreover have "runBPE_loop mm chunks idx stps =
        runBPE_loop mm (map (merge_spec a b) chunks) (idx + 1)
          (stps @ [merged_step idx (a, b) bf (map (merge_spec a b) chunks)])"
    using runBPE_loop_go [OF go sel p(3) [unfolded ab], of stps] by (simp only: merge)
  ultimately show ?thesis using sel p(2,4) bf ab by auto
qed

lemma runBPE_loop_rule:
  assumes nf: "nul_free chunks" and init: "I chunks idx stps"
    and step: "\<And>chunks idx stps a b bf.
      \<lbrakk>nul_free chunks; I chunks idx stps; \<not> stops mm chunks idx;
       (a, b) \<in> set (all_pairs chunks); bf = count_list (all_pairs chunks) (a, b); 2 \<le> bf\<rbrakk>
      \<Longrightarrow> I (map (merge_spec a b) chunks) (idx + 1)
            (stps @ [merged_step idx (a, b) bf (map (merge_spec a b) chunks)])"
  shows "\<exists>res chunks' idx'. runBPE_loop mm chunks idx stps = Some res \<and>
      nul_free chunks' \<and> I chunks' idx' res \<and> stops mm chunks' idx'"
  using nf init
proof (induction "length (concat chunks)" arbitrary: chunks idx stps rule: less_induct)
  case less
  show ?case
  proof (cases "stops mm chunks idx")
    case True
    then have "runBPE_loop mm chunks idx stps = Some stps" by (rule runBPE_loop_stop)
    with less.prems True show ?thesis by blast
  next
    case False
    from runBPE_loop_round [OF less.prems(1) False, of stps] obtain a b bf where
      r: "(a, b) \<in> set (all_pairs chunks)"
         "bf = count_list (all_pairs chunks) (a, b)" "2 \<le> bf"
         "runBPE_loop mm chunks idx stps =
            runBPE_loop mm (map (merge_spec a b) chunks) (idx + 1)
              (stps @ [merged_step idx (a, b) bf (map (merge_spec a b) chunks)])"
      by blast
    have "\<exists>res chunks' idx'.
        runBPE_loop mm (map (merge_spec a b) chunks) (idx + 1)
          (stps @ [merged_step idx (a, b) bf (map (merge_spec a b) chunks)]) = Some res \<and>
        nul_free chunks' \<and> I chunks' idx' res \<and> stops mm chunks' idx'"
    proof (rule less.hyps)
      show "length (concat (map (merge_spec a b) chunks)) < length (concat chunks)"
        using r(1) by (rule length_concat_merge_less)
      show "nul_free (map (merge_spec a b) chunks)"
        using less.prems(1) r(1) by (rule nul_free_merge)
      show "I (map (merge_spec a b) chunks) (idx + 1)
          (stps @ [merged_step idx (a, b) bf (map (merge_spec a b) chunks)])"
        using less.prems False r(1,2,3) by (rule step)
    qed
    with r(4) show ?thesis by simp
  qed
qed


subsection \<open>Code points\<close>
lemma codePoints_units: "concat (map snd (codePoints s)) = s"
  by (induction s rule: codePoints.induct) auto

lemma codePoints_Cons: "\<exists>y ys. codePoints (u # s) = y # ys \<and> (\<exists>us. snd y = u # us)"
  by (cases s) auto

lemma wf_points_codePoints: "wf_points (codePoints s)"
proof (induction s rule: codePoints.induct)
  case (1 h l rest)
  show ?case
  proof (cases "is_high_surrogate h \<and> is_low_surrogate l")
    case True
    with 1 have wf: "wf_points (codePoints rest)" by simp
    have ok: "point_ok (surrogate_pair h l, [h, l])"
      using True by (simp add: point_ok_def)
    have nl: "\<not> lone_high (surrogate_pair h l, [h, l])" by (simp add: lone_high_def)
    from True have "codePoints (h # l # rest) = (surrogate_pair h l, [h, l]) # codePoints rest"
      by simp
    with wf ok nl show ?thesis by (cases "codePoints rest") simp_all
  next
    case False
    with 1 have wf: "wf_points (codePoints (l # rest))" by simp
    obtain y ys us where y: "codePoints (l # rest) = y # ys" "snd y = l # us"
      using codePoints_Cons [of l rest] by blast
    have ok: "point_ok (unat h, [h])" by (simp add: point_ok_def)
    have "\<not> (lone_high (unat h, [h]) \<and> starts_low y)"
      using False y(2) by (simp add: lone_high_def starts_low_def)
    moreover from False have "codePoints (h # l # rest) = (unat h, [h]) # codePoints (l # rest)"
      by simp
    ultimately show ?thesis using wf ok y(1) by simp
  qed
next
  case (2 u)
  show ?case by (simp add: point_ok_def)
next
  case 3
  show ?case by simp
qed

lemma wf_points_Cons: "wf_points (x # xs) \<Longrightarrow> point_ok x \<and> wf_points xs"
  by (cases xs) simp_all

lemma wf_points_append: "wf_points (xs @ ys) \<Longrightarrow> wf_points xs \<and> wf_points ys"
proof (induction xs rule: wf_points.induct)
  case 1
  then show ?case by simp
next
  case (2 x)
  then show ?case using wf_points_Cons [of x ys] by simp
next
  case (3 x y rest)
  then show ?case by simp
qed

lemma wf_points_take_drop: "wf_points xs \<Longrightarrow> wf_points (take n xs) \<and> wf_points (drop n xs)"
  using wf_points_append [of "take n xs" "drop n xs"] by simp

lemma point_ok_cases:
  assumes "point_ok x"
  obtains u where "x = (unat u, [u])"
  | h l where "x = (surrogate_pair h l, [h, l])" "is_high_surrogate h" "is_low_surrogate l"
proof -
  obtain cp us where x: "x = (cp, us)" by (cases x)
  with assms show ?thesis
    using that by (auto simp: point_ok_def split: list.splits)
qed

lemma codePoints_of_units: "wf_points xs \<Longrightarrow> codePoints (concat (map snd xs)) = xs"
proof (induction xs rule: wf_points.induct)
  case 1
  show ?case by simp
next
  case (2 x)
  then have "point_ok x" by simp
  then show ?case by (cases x rule: point_ok_cases) simp_all
next
  case (3 x y rest)
  then have ok: "point_ok x" and adj: "\<not> (lone_high x \<and> starts_low y)"
    and wf: "wf_points (y # rest)"
    and IH: "codePoints (concat (map snd (y # rest))) = y # rest"
    by simp_all
  from wf have "point_ok y" by (rule wf_points_Cons [THEN conjunct1])
  then obtain l us where y: "snd y = l # us"
    by (cases y rule: point_ok_cases) simp_all
  from ok show ?case
  proof (cases x rule: point_ok_cases)
    case (1 u)
    with adj y have "\<not> (is_high_surrogate u \<and> is_low_surrogate l)"
      by (simp add: lone_high_def starts_low_def)
    with 1 y IH show ?thesis by simp
  next
    case (2 h l')
    with IH show ?thesis by simp
  qed
qed

lemma TextEncoder_encode_units:
  "wf_points xs \<Longrightarrow> TextEncoder_encode (concat (map snd xs)) = utf8_points xs"
  by (simp add: TextEncoder_encode_def utf8_points_def codePoints_of_units)

lemma TextEncoder_encode_points: "TextEncoder_encode s = utf8_points (codePoints s)"
  by (simp add: TextEncoder_encode_def utf8_points_def)

lemma utf8_points_append: "utf8_points (xs @ ys) = utf8_points xs @ utf8_points ys"
  by (simp add: utf8_points_def)


subsection \<open>The pattern\<close>
lemma first_match_Some: "first_match alts = Some n \<Longrightarrow> Some n \<in> set alts"
  by (induction alts rule: first_match.induct) auto

lemma first_match_None: "first_match alts = None \<Longrightarrow> a \<in> set alts \<Longrightarrow> a = None"
  by (induction alts rule: first_match.induct) auto

lemma literal_bounds:
  assumes "w \<noteq> []" "literal w cs = Some n"
  shows "1 \<le> n \<and> n \<le> length cs"
proof -
  from assms(2) have n: "n = length w" and t: "take (length w) cs = w"
    by (auto simp: literal_def split: if_splits)
  from t have "length (take (length w) cs) = length w" by simp
  then have "length w \<le> length cs" by simp
  with n assms(1) show ?thesis by (cases w) auto
qed

lemma plus_class_bounds: "plus_class C cs = Some n \<Longrightarrow> 1 \<le> n \<and> n \<le> length cs"
  using length_takeWhile_le [of C cs]
  by (auto simp: plus_class_def Let_def split: if_splits)

lemma opt_space_plus_bounds:
  assumes "opt_space_plus C cs = Some n"
  shows "1 \<le> n \<and> n \<le> length cs"
proof (cases cs)
  case Nil
  with assms show ?thesis by (simp add: opt_space_plus_def)
next
  case (Cons c rest)
  show ?thesis
  proof (cases "c = 0x20")
    case False
    with assms Cons have "plus_class C cs = Some n" by (simp add: opt_space_plus_def)
    then show ?thesis by (rule plus_class_bounds)
  next
    case True
    show ?thesis
    proof (cases "plus_class C rest")
      case None
      with assms Cons True have "plus_class C cs = Some n" by (simp add: opt_space_plus_def)
      then show ?thesis by (rule plus_class_bounds)
    next
      case (Some k)
      with assms Cons True have "n = k + 1" by (simp add: opt_space_plus_def)
      with plus_class_bounds [OF Some] Cons show ?thesis by simp
    qed
  qed
qed

lemma whitespace_lookahead_bounds:
  assumes "whitespace_lookahead cs = Some n"
  shows "1 \<le> n \<and> n \<le> length cs"
proof -
  define k where "k = length (takeWhile is_whitespace cs)"
  have "k \<le> length cs" unfolding k_def by (rule length_takeWhile_le)
  moreover from assms have "k \<noteq> 0 \<and> (n = k \<or> (2 \<le> k \<and> n = k - 1))"
    unfolding whitespace_lookahead_def Let_def k_def [symmetric]
    by (auto split: if_splits)
  ultimately show ?thesis by auto
qed

lemma GPT2_PAT_bounds:
  assumes "GPT2_PAT L N cs = Some n"
  shows "1 \<le> n \<and> n \<le> length cs"
proof -
  from assms have "Some n \<in> set
       [literal [0x27, 0x73] cs, literal [0x27, 0x74] cs, literal [0x27, 0x72, 0x65] cs,
        literal [0x27, 0x76, 0x65] cs, literal [0x27, 0x6D] cs, literal [0x27, 0x6C, 0x6C] cs,
        literal [0x27, 0x64] cs, opt_space_plus L cs, opt_space_plus N cs,
        opt_space_plus (is_other L N) cs, whitespace_lookahead cs,
        plus_class is_whitespace cs]"
    unfolding GPT2_PAT_def by (rule first_match_Some)
  then consider w where "w \<noteq> []" "literal w cs = Some n"
    | C where "opt_space_plus C cs = Some n"
    | "whitespace_lookahead cs = Some n"
    | "plus_class is_whitespace cs = Some n"
    by (simp only: set_simps insert_iff empty_iff) (metis list.distinct(1))
  then show ?thesis
    by cases (auto dest: literal_bounds opt_space_plus_bounds whitespace_lookahead_bounds
        plus_class_bounds)
qed

lemma plus_class_hd: "C c \<Longrightarrow> plus_class C (c # cs) \<noteq> None"
  by (simp add: plus_class_def Let_def)

lemma GPT2_PAT_total: "GPT2_PAT L N (c # cs) \<noteq> None"
proof
  assume none: "GPT2_PAT L N (c # cs) = None"
  note alt = first_match_None [OF none [unfolded GPT2_PAT_def]]
  have ws: "plus_class is_whitespace (c # cs) = None" by (rule alt) simp
  have l: "opt_space_plus L (c # cs) = None" by (rule alt) simp
  have n: "opt_space_plus N (c # cs) = None" by (rule alt) simp
  have o: "opt_space_plus (is_other L N) (c # cs) = None" by (rule alt) simp
  from ws plus_class_hd [of is_whitespace c cs] have nws: "\<not> is_whitespace c" by auto
  then have "c \<noteq> 0x20" by (auto simp: is_whitespace_def)
  with l n o have "plus_class L (c # cs) = None" "plus_class N (c # cs) = None"
      "plus_class (is_other L N) (c # cs) = None"
    by (simp_all add: opt_space_plus_def)
  with plus_class_hd [of L c cs] plus_class_hd [of N c cs]
    plus_class_hd [of "is_other L N" c cs]
  have "\<not> L c" "\<not> N c" "\<not> is_other L N c" by auto
  with nws show False by (simp add: is_other_def)
qed

subsection \<open>The pre-tokenizer\<close>
lemma match_all_Cons:
  obtains n where "1 \<le> n" "n \<le> length (c # cs)"
    "match_all L N (c # cs) =
       concat (map snd (take n (c # cs))) # match_all L N (drop n (c # cs))"
proof -
  from GPT2_PAT_total [of L N "fst c" "map fst cs"] obtain n
    where n: "GPT2_PAT L N (map fst (c # cs)) = Some n" by auto
  from GPT2_PAT_bounds [OF n] have "1 \<le> n" "n \<le> length (c # cs)" by simp_all
  moreover from n \<open>1 \<le> n\<close> have "match_all L N (c # cs) =
       concat (map snd (take n (c # cs))) # match_all L N (drop n (c # cs))"
    by simp
  ultimately show ?thesis by (rule that)
qed

lemma match_all_nonempty: "cs \<noteq> [] \<Longrightarrow> match_all L N cs \<noteq> []"
proof (cases cs)
  case Nil
  moreover assume "cs \<noteq> []"
  ultimately show ?thesis by simp
next
  case (Cons c rest)
  obtain n where "match_all L N (c # rest) =
       concat (map snd (take n (c # rest))) # match_all L N (drop n (c # rest))"
    by (rule match_all_Cons)
  with Cons show ?thesis by simp
qed

lemma match_all_concat: "concat (match_all L N cs) = concat (map snd cs)"
proof (induction "length cs" arbitrary: cs rule: less_induct)
  case less
  show ?case
  proof (cases cs)
    case Nil
    then show ?thesis by simp
  next
    case (Cons c rest)
    obtain n where n: "1 \<le> n" "n \<le> length (c # rest)"
      "match_all L N (c # rest) =
         concat (map snd (take n (c # rest))) # match_all L N (drop n (c # rest))"
      by (rule match_all_Cons)
    from n(1) Cons have "length (drop n cs) < length cs" by simp
    from less [OF this] have "concat (match_all L N (drop n cs)) = concat (map snd (drop n cs))" .
    with n(3) Cons have "concat (match_all L N cs) =
        concat (map snd (take n cs)) @ concat (map snd (drop n cs))"
      by simp
    also have "\<dots> = concat (map snd (take n cs @ drop n cs))"
      by (simp only: map_append concat_append)
    finally show ?thesis by simp
  qed
qed

lemma point_ok_units: "point_ok x \<Longrightarrow> snd x \<noteq> []"
  by (cases x rule: point_ok_cases) simp_all

lemma match_all_chunks_nonempty:
  "wf_points cs \<Longrightarrow> chunk \<in> set (match_all L N cs) \<Longrightarrow> chunk \<noteq> []"
proof (induction "length cs" arbitrary: cs rule: less_induct)
  case less
  show ?case
  proof (cases cs)
    case Nil
    with less.prems show ?thesis by simp
  next
    case (Cons c rest)
    obtain n where n: "1 \<le> n" "n \<le> length (c # rest)"
      "match_all L N (c # rest) =
         concat (map snd (take n (c # rest))) # match_all L N (drop n (c # rest))"
      by (rule match_all_Cons)
    from less.prems(2) n(3) Cons
    consider "chunk = concat (map snd (take n cs))" | "chunk \<in> set (match_all L N (drop n cs))"
      by auto
    then show ?thesis
    proof cases
      case 1
      from n(1) Cons obtain k where "take n cs = c # take k rest"
        by (cases n) auto
      moreover from less.prems(1) Cons have "snd c \<noteq> []"
        using wf_points_Cons [of c rest] point_ok_units by blast
      ultimately show ?thesis using 1 by simp
    next
      case 2
      from n(1) Cons have "length (drop n cs) < length cs" by simp
      moreover have "wf_points (drop n cs)"
        using less.prems(1) wf_points_take_drop by blast
      ultimately show ?thesis using 2 by (rule less.hyps)
    qed
  qed
qed

lemma match_all_encode:
  "wf_points cs \<Longrightarrow> concat (map TextEncoder_encode (match_all L N cs)) = utf8_points cs"
proof (induction "length cs" arbitrary: cs rule: less_induct)
  case less
  show ?case
  proof (cases cs)
    case Nil
    then show ?thesis by (simp add: utf8_points_def)
  next
    case (Cons c rest)
    obtain n where n: "1 \<le> n" "n \<le> length (c # rest)"
      "match_all L N (c # rest) =
         concat (map snd (take n (c # rest))) # match_all L N (drop n (c # rest))"
      by (rule match_all_Cons)
    from less.prems have wf: "wf_points (take n cs)" "wf_points (drop n cs)"
      using wf_points_take_drop by blast+
    from n(1) Cons have "length (drop n cs) < length cs" by simp
    from less.hyps [OF this wf(2)]
    have "concat (map TextEncoder_encode (match_all L N (drop n cs))) = utf8_points (drop n cs)" .
    with n(3) Cons TextEncoder_encode_units [OF wf(1)]
    have "concat (map TextEncoder_encode (match_all L N cs)) =
        utf8_points (take n cs) @ utf8_points (drop n cs)"
      by simp
    also have "\<dots> = utf8_points (take n cs @ drop n cs)"
      by (simp only: utf8_points_append)
    finally show ?thesis by simp
  qed
qed


subsection \<open>Bytes of the encoder\<close>
lemma point_ok_bound:
  assumes "point_ok x"
  shows "fst x < 0x110000"
  using assms
proof (cases x rule: point_ok_cases)
  case (1 u)
  have "unat u < 2 ^ LENGTH(16)" by (rule unsigned_less)
  with 1 show ?thesis by simp
next
  case (2 h l)
  then have h: "unat h - 0xD800 \<le> 1023" and l: "unat l - 0xDC00 \<le> 1023"
    unfolding is_high_surrogate_def is_low_surrogate_def by linarith+
  from h have "(unat h - 0xD800) * 0x400 \<le> 1023 * 0x400"
    by (intro mult_le_mono1)
  with l have "0x10000 + (unat h - 0xD800) * 0x400 + (unat l - 0xDC00) < 0x110000"
    by linarith
  with 2(1) show ?thesis
    by (simp only: surrogate_pair_def fst_conv)
qed

lemma utf8_bytes_bound:
  assumes "cp < 0x110000" "b \<in> set (utf8_bytes cp)"
  shows "b < 256"
proof -
  have m: "k mod 64 < 64" for k :: nat by simp
  have d1: "cp < 0x800 \<Longrightarrow> cp div 64 < 32" by simp
  have d2: "cp < 0x10000 \<Longrightarrow> cp div 4096 < 16" by simp
  have d3: "cp div 262144 < 5" using assms(1) by simp
  from assms(2) show ?thesis
    unfolding utf8_bytes_def
    using m [of cp] m [of "cp div 64"] m [of "cp div 4096"] d1 d2 d3
    by (auto split: if_splits)
qed

lemma utf8_points_bound:
  assumes "wf_points cs" "b \<in> set (utf8_points cs)"
  shows "b < 256"
proof -
  from assms(2) obtain c where c: "c \<in> set cs" "b \<in> set (utf8_bytes (scalar_value (fst c)))"
    by (auto simp: utf8_points_def)
  from c(1) obtain ys zs where "cs = ys @ c # zs" by (auto dest: split_list)
  with assms(1) have "wf_points (c # zs)"
    using wf_points_append [of ys "c # zs"] by simp
  then have "point_ok c" using wf_points_Cons by blast
  then have "scalar_value (fst c) < 0x110000"
    using point_ok_bound [of c] by (simp add: scalar_value_def)
  then show ?thesis using c(2) by (rule utf8_bytes_bound)
qed

lemma TextEncoder_encode_bound: "b \<in> set (TextEncoder_encode s) \<Longrightarrow> b < 256"
  unfolding TextEncoder_encode_points
  using wf_points_codePoints by (rule utf8_points_bound)

subsection \<open>Encoding the chunks\<close>
lemma those_map_Some: "(\<And>x. x \<in> set xs \<Longrightarrow> f x = Some (g x)) \<Longrightarrow> those (map f xs) = Some (map g xs)"
  by (induction xs) simp_all

lemma map_get_byte_token: "b < 256 \<Longrightarrow> map_get BYTE_TO_UNICODE b = Some (byte_token b)"
  by (simp add: BYTE_TO_UNICODE_get byte_token_def)

lemma encodeChunk_eq: "encodeChunk chunk = Some (map byte_token (TextEncoder_encode chunk))"
  unfolding encodeChunk_def
  by (rule those_map_Some) (simp add: map_get_byte_token TextEncoder_encode_bound)

lemma those_encodeChunk:
  "those (map encodeChunk (match_all L N (codePoints text))) = Some (initial_chunks L N text)"
  unfolding initial_chunks_def by (rule those_map_Some) (rule encodeChunk_eq)

lemma byte_token_unit: "b < 256 \<Longrightarrow> \<exists>c. byte_token b = [c] \<and> c \<noteq> 0 \<and> unicode_to_byte c = Some b"
  using BYTE_TO_UNICODE_unit [of b] unicode_to_byte_inverse [of b "of_nat (byte_unit b)"]
  by (simp add: byte_token_def fromCharCode_def)

lemma nul_free_initial_chunks: "nul_free (initial_chunks L N text)"
  unfolding nul_free_def initial_chunks_def
proof (intro ballI)
  fix c t
  assume "c \<in> set (map (\<lambda>chunk. map byte_token (TextEncoder_encode chunk))
      (match_all L N (codePoints text)))" and t: "t \<in> set c"
  then obtain chunk where "c = map byte_token (TextEncoder_encode chunk)" by auto
  with t obtain b where "b \<in> set (TextEncoder_encode chunk)" "t = byte_token b" by auto
  with TextEncoder_encode_bound [of b chunk] byte_token_unit [of b]
  show "0 \<notin> set t" by auto
qed

lemma decode_byte_tokens:
  assumes "\<And>b. b \<in> set bs \<Longrightarrow> b < 256"
  shows "map unicode_to_byte (concat (map byte_token bs)) = map Some bs"
  using assms
proof (induction bs)
  case Nil
  show ?case by simp
next
  case (Cons b bs)
  from Cons.prems have "b < 256" by simp
  from byte_token_unit [OF this] obtain c where "byte_token b = [c]" "unicode_to_byte c = Some b"
    by blast
  with Cons show ?case by simp
qed

lemma initial_chunks_flat:
  "concat (initial_chunks L N text) = map byte_token (TextEncoder_encode text)"
proof -
  have "concat (initial_chunks L N text) =
      map byte_token (concat (map TextEncoder_encode (match_all L N (codePoints text))))"
    by (simp add: initial_chunks_def map_concat o_def)
  also have "\<dots> = map byte_token (utf8_points (codePoints text))"
    by (simp only: match_all_encode [OF wf_points_codePoints])
  finally show ?thesis by (simp only: TextEncoder_encode_points)
qed

lemma decode_initial_chunks:
  "map unicode_to_byte (concat (concat (initial_chunks L N text))) =
     map Some (TextEncoder_encode text)"
  unfolding initial_chunks_flat
  by (rule decode_byte_tokens) (rule TextEncoder_encode_bound)

lemma initial_chunks_nonempty: "text \<noteq> [] \<Longrightarrow> initial_chunks L N text \<noteq> []"
proof -
  assume "text \<noteq> []"
  then have "codePoints text \<noteq> []" by (cases "text" rule: codePoints.cases) auto
  then have "match_all L N (codePoints text) \<noteq> []" by (rule match_all_nonempty)
  then show ?thesis by (simp add: initial_chunks_def)
qed

lemma runBPE_empty: "runBPE L N [] maxMerges = Some \<lparr>steps = []\<rparr>"
  by (simp add: runBPE_def)

lemma runBPE_nonempty:
  assumes "text \<noteq> []"
  shows "runBPE L N text maxMerges =
     map_option (\<lambda>s. \<lparr>steps = s\<rparr>)
       (runBPE_loop maxMerges (initial_chunks L N text) 1
          [initial_step (initial_chunks L N text)])"
proof -
  from initial_chunks_nonempty [OF assms, of L N]
  have "match_all L N (codePoints text) \<noteq> []" by (auto simp: initial_chunks_def)
  with assms show ?thesis
    by (simp add: runBPE_def Let_def those_encodeChunk)
qed

subsection \<open>A proof rule for \<open>runBPE\<close>\<close>

lemma runBPE_rule:
  assumes init: "text \<noteq> [] \<Longrightarrow>
      I (initial_chunks L N text) 1 [initial_step (initial_chunks L N text)]"
    and step: "\<And>chunks idx stps a b bf.
      \<lbrakk>nul_free chunks; I chunks idx stps; \<not> stops mm chunks idx;
       (a, b) \<in> set (all_pairs chunks); bf = count_list (all_pairs chunks) (a, b); 2 \<le> bf\<rbrakk>
      \<Longrightarrow> I (map (merge_spec a b) chunks) (idx + 1)
            (stps @ [merged_step idx (a, b) bf (map (merge_spec a b) chunks)])"
  shows "\<exists>res. runBPE L N text mm = Some res \<and>
      (if text = [] then steps res = []
       else \<exists>chunks' idx'. nul_free chunks' \<and> I chunks' idx' (steps res) \<and> stops mm chunks' idx')"
proof (cases "text = []")
  case True
  then show ?thesis by (simp add: runBPE_empty)
next
  case False
  from runBPE_loop_rule [of "initial_chunks L N text" I 1 "[initial_step (initial_chunks L N text)]" mm,
      OF nul_free_initial_chunks init [OF False] step]
  obtain res chunks' idx' where
    "runBPE_loop mm (initial_chunks L N text) 1 [initial_step (initial_chunks L N text)] = Some res"
    "nul_free chunks'" "I chunks' idx' res" "stops mm chunks' idx'"
    by blast
  with False show ?thesis
    by (auto simp: runBPE_nonempty)
qed

text \<open>
  Claim C8, as amended. For every input (and whatever the tables \<open>L\<close> and \<open>N\<close> are),
  \<open>runBPE\<close> returns a result, and the trace is empty exactly when the text is empty:
  every other text, a text of white space included, gives at least step 0. On the empty
  text the result is \<open>{steps: []}\<close>.
\<close>

theorem runBPE_total_and_empty_trace:
  "(\<exists>res. runBPE L N text maxMerges = Some res \<and> (steps res = []) = (text = [])) \<and>
   runBPE L N [] maxMerges = Some \<lparr>steps = []\<rparr>"
proof (rule conjI [OF _ runBPE_empty])
  from runBPE_rule [of "text" "\<lambda>chunks idx stps. stps \<noteq> []" L N maxMerges]
  obtain res where "runBPE L N text maxMerges = Some res"
    "if text = [] then steps res = [] else \<exists>chunks' idx'. nul_free chunks' \<and> steps res \<noteq> [] \<and> stops maxMerges chunks' idx'"
    by auto
  then show "\<exists>res. runBPE L N text maxMerges = Some res \<and> (steps res = []) = (text = [])"
    by (cases "text = []") auto
qed

text \<open>
  Claim C4. For a positive \<open>maxMerges = k\<close>, \<open>runBPE\<close> returns a trace of at most
  \<open>k + 1\<close> steps, and every recorded \<open>stepIndex\<close> is at most \<open>k\<close>.
\<close>

theorem maxMerges_bound:
  assumes "0 < k"
  shows "\<exists>res. runBPE L N text (Some k) = Some res \<and>
     length (steps res) \<le> nat k + 1 \<and> (\<forall>s \<in> set (steps res). int (stepIndex s) \<le> k)"
proof -
  let ?I = "\<lambda>(chunks :: Token list list) idx (stps :: BPEStep list).
     length stps = idx \<and> int idx \<le> k + 1 \<and> (\<forall>s \<in> set stps. int (stepIndex s) \<le> k)"
  have "\<exists>res. runBPE L N text (Some k) = Some res \<and>
      (if text = [] then steps res = []
       else \<exists>chunks' idx'. nul_free chunks' \<and> ?I chunks' idx' (steps res) \<and> stops (Some k) chunks' idx')"
  proof (rule runBPE_rule)
    show "?I (initial_chunks L N text) 1 [initial_step (initial_chunks L N text)]"
      using assms by (simp add: initial_step_def)
  next
    fix chunks idx stps a b bf
    assume "?I chunks idx stps" "\<not> stops (Some k) chunks idx"
    then show "?I (map (merge_spec a b) chunks) (idx + 1)
            (stps @ [merged_step idx (a, b) bf (map (merge_spec a b) chunks)])"
      by (auto simp: stops_def merged_step_def)
  qed
  then obtain res where res: "runBPE L N text (Some k) = Some res"
    "if text = [] then steps res = []
       else \<exists>chunks' idx'. nul_free chunks' \<and> ?I chunks' idx' (steps res) \<and> stops (Some k) chunks' idx'"
    by blast
  from res(2) assms have "length (steps res) \<le> nat k + 1 \<and> (\<forall>s \<in> set (steps res). int (stepIndex s) \<le> k)"
    by (cases "text = []") auto
  with res(1) show ?thesis by blast
qed


text \<open>
  Claim C10. In the trace that \<open>runBPE\<close> returns, the step at position \<open>i\<close> has
  \<open>stepIndex = i\<close>; step 0 has \<open>mergedPair\<close>, \<open>frequency\<close> and \<open>newToken\<close> null; every
  later step has all three set, with \<open>newToken = mergedPair[0] + mergedPair[1]\<close>.
\<close>

theorem trace_step_shape:
  "\<exists>res. runBPE L N text maxMerges = Some res \<and>
     (\<forall>i < length (steps res). step_shape i (steps res ! i))"
proof -
  let ?I = "\<lambda>(chunks :: Token list list) idx (stps :: BPEStep list).
     length stps = idx \<and> 0 < idx \<and> (\<forall>i < length stps. step_shape i (stps ! i))"
  have "\<exists>res. runBPE L N text maxMerges = Some res \<and>
      (if text = [] then steps res = []
       else \<exists>chunks' idx'. nul_free chunks' \<and> ?I chunks' idx' (steps res) \<and>
          stops maxMerges chunks' idx')"
  proof (rule runBPE_rule)
    show "?I (initial_chunks L N text) 1 [initial_step (initial_chunks L N text)]"
      by (simp add: initial_step_def step_shape_def)
  next
    fix chunks idx stps a b and bf :: nat
    assume I: "?I chunks idx stps"
    let ?s = "merged_step idx (a, b) bf (map (merge_spec a b) chunks)"
    have idx: "0 < idx \<Longrightarrow> step_shape idx ?s"
      by (simp add: step_shape_def merged_step_def)
    have "step_shape i ((stps @ [?s]) ! i)" if "i < length (stps @ [?s])" for i
    proof (cases "i < length stps")
      case True
      with I show ?thesis by (simp add: nth_append)
    next
      case False
      with that have i: "i = length stps" by simp
      with idx I show ?thesis by (simp add: nth_append)
    qed
    with I show "?I (map (merge_spec a b) chunks) (idx + 1) (stps @ [?s])"
      by simp
  qed
  then obtain res where res: "runBPE L N text maxMerges = Some res"
    "if text = [] then steps res = []
       else \<exists>chunks' idx'. nul_free chunks' \<and> ?I chunks' idx' (steps res) \<and>
          stops maxMerges chunks' idx'"
    by blast
  from res(2) have "\<forall>i < length (steps res). step_shape i (steps res ! i)"
    by (cases "text = []") auto
  with res(1) show ?thesis by blast
qed


lemma count_list_distinct: "distinct xs \<Longrightarrow> count_list xs x \<le> 1"
  by (induction xs) auto

lemma stops_distinct_pairs:
  assumes "nul_free chunks" "distinct (all_pairs chunks)"
  shows "stops maxMerges chunks idx"
proof (cases "all_pairs chunks = []")
  case True
  then show ?thesis by (simp add: stops_def countPairsAcrossChunks_empty_iff)
next
  case False
  obtain bk bf where sel: "select_best (countPairsAcrossChunks chunks) = (bk, bf)"
    by (cases "select_best (countPairsAcrossChunks chunks)")
  from select_best_pairs [OF assms(1) False sel] obtain p where
    p: "p < length (all_pairs chunks)"
       "bf = count_list (all_pairs chunks) (all_pairs chunks ! p)"
    by blast
  have "count_list (all_pairs chunks) (all_pairs chunks ! p) \<le> 1"
    using assms(2) by (rule count_list_distinct)
  with p(2) sel show ?thesis by (simp add: stops_def)
qed

text \<open>
  Claim C5. \<open>runBPE\<close> returns a trace in which every step with an index above 0 has a
  frequency of at least 2. Hence, when no adjacent pair of the initial chunks occurs
  twice, the trace holds nothing beyond step 0 (and is empty for the empty text).
\<close>

theorem frequency_floor:
  "\<exists>res. runBPE L N text maxMerges = Some res \<and>
     (\<forall>s \<in> set (steps res). 0 < stepIndex s \<longrightarrow> (\<exists>f. frequency s = Some f \<and> 2 \<le> f)) \<and>
     (\<forall>chunks. those (map encodeChunk (match_all L N (codePoints text))) = Some chunks \<and>
        distinct (all_pairs chunks) \<longrightarrow>
        steps res = (if text = [] then [] else [initial_step chunks]))"
proof -
  let ?I = "\<lambda>(chunks :: Token list list) (idx :: nat) (stps :: BPEStep list).
     \<forall>s \<in> set stps. 0 < stepIndex s \<longrightarrow> (\<exists>f. frequency s = Some f \<and> 2 \<le> f)"
  have "\<exists>res. runBPE L N text maxMerges = Some res \<and>
      (if text = [] then steps res = []
       else \<exists>chunks' idx'. nul_free chunks' \<and> ?I chunks' idx' (steps res) \<and>
          stops maxMerges chunks' idx')"
  proof (rule runBPE_rule)
    show "?I (initial_chunks L N text) 1 [initial_step (initial_chunks L N text)]"
      by (simp add: initial_step_def)
  next
    fix chunks idx stps a b and bf :: nat
    assume "?I chunks idx stps" "2 \<le> bf"
    then show "?I (map (merge_spec a b) chunks) (idx + 1)
            (stps @ [merged_step idx (a, b) bf (map (merge_spec a b) chunks)])"
      by (auto simp: merged_step_def)
  qed
  then obtain res where res: "runBPE L N text maxMerges = Some res"
    "if text = [] then steps res = []
       else \<exists>chunks' idx'. nul_free chunks' \<and> ?I chunks' idx' (steps res) \<and>
          stops maxMerges chunks' idx'"
    by blast
  from res(2) have floor: "\<forall>s \<in> set (steps res). 0 < stepIndex s \<longrightarrow>
      (\<exists>f. frequency s = Some f \<and> 2 \<le> f)"
    by (cases "text = []") auto
  have only: "steps res = (if text = [] then [] else [initial_step chunks])"
    if "those (map encodeChunk (match_all L N (codePoints text))) = Some chunks"
      "distinct (all_pairs chunks)" for chunks
  proof (cases "text = []")
    case True
    with res show ?thesis by simp
  next
    case False
    from that(1) have c: "chunks = initial_chunks L N text"
      by (simp add: those_encodeChunk)
    then have "stops maxMerges chunks 1"
      using nul_free_initial_chunks that(2) by (simp add: stops_distinct_pairs)
    then have "runBPE_loop maxMerges chunks 1 [initial_step chunks] = Some [initial_step chunks]"
      by (rule runBPE_loop_stop)
    with False c res(1) show ?thesis by (auto simp: runBPE_nonempty)
  qed
  from res(1) floor only show ?thesis by blast
qed

lemma sum_merge_count:
  "length (concat chunks) =
     length (concat (map (merge_spec a b) chunks)) + sum_list (map (merge_count a b) chunks)"
proof (induction chunks)
  case Nil
  show ?case by simp
next
  case (Cons c chunks)
  with length_merge_spec [of a b c] show ?case by simp
qed

lemma sum_merge_count_le:
  "sum_list (map (merge_count a b) chunks) \<le> count_list (all_pairs chunks) (a, b)"
proof (induction chunks)
  case Nil
  show ?case by (simp add: all_pairs_def)
next
  case (Cons c chunks)
  with merge_count_le [of a b c] show ?case by (simp add: all_pairs_def)
qed

text \<open>
  Claim C7. \<open>runBPE\<close> returns a trace in which every step has strictly fewer tokens than
  the step before it; the difference is the number of replacements the merge pass made,
  which is at most the recorded frequency.
\<close>

theorem token_count_decreases:
  "\<exists>res. runBPE L N text maxMerges = Some res \<and>
     (\<forall>i. i + 1 < length (steps res) \<longrightarrow>
        merge_transition (steps res ! i) (steps res ! (i + 1)))"
proof -
  let ?I = "\<lambda>(chunks :: Token list list) (idx :: nat) (stps :: BPEStep list).
     stps \<noteq> [] \<and> tokens (last stps) = concat chunks \<and>
     (\<forall>i. i + 1 < length stps \<longrightarrow> merge_transition (stps ! i) (stps ! (i + 1)))"
  have "\<exists>res. runBPE L N text maxMerges = Some res \<and>
      (if text = [] then steps res = []
       else \<exists>chunks' idx'. nul_free chunks' \<and> ?I chunks' idx' (steps res) \<and>
          stops maxMerges chunks' idx')"
  proof (rule runBPE_rule)
    show "?I (initial_chunks L N text) 1 [initial_step (initial_chunks L N text)]"
      by (simp add: initial_step_def)
  next
    fix chunks idx stps a b and bf :: nat
    assume I: "?I chunks idx stps" and ab: "(a, b) \<in> set (all_pairs chunks)"
      and bf: "bf = count_list (all_pairs chunks) (a, b)"
    let ?chunks' = "map (merge_spec a b) chunks"
    let ?s = "merged_step idx (a, b) bf ?chunks'"
    have merge: "(\<lambda>chunk. mergePairInChunk chunk (a, b)) = merge_spec a b"
      by (rule ext) (rule mergePairInChunk_eq_spec)
    have tr: "merge_transition (last stps) ?s"
      unfolding merge_transition_def
    proof (intro conjI exI)
      show "length (tokens ?s) < length (tokens (last stps))"
        using I length_concat_merge_less [OF ab] by (simp add: merged_step_def)
      show "mergedPair ?s = Some (a, b)" by (simp add: merged_step_def)
      show "frequency ?s = Some bf" by (simp add: merged_step_def)
      show "concat chunks = tokens (last stps)" using I by simp
      show "tokens ?s = concat (map (\<lambda>chunk. mergePairInChunk chunk (a, b)) chunks)"
        by (simp add: merged_step_def merge)
      show "length (tokens (last stps)) =
          length (tokens ?s) + sum_list (map (merge_count a b) chunks)"
        using I sum_merge_count [of chunks a b] by (simp add: merged_step_def)
      show "sum_list (map (merge_count a b) chunks) \<le> bf"
        unfolding bf by (rule sum_merge_count_le)
    qed
    have "merge_transition ((stps @ [?s]) ! i) ((stps @ [?s]) ! (i + 1))"
      if "i + 1 < length (stps @ [?s])" for i
    proof (cases "i + 1 < length stps")
      case True
      with I show ?thesis by (simp add: nth_append)
    next
      case False
      with that have i: "i + 1 = length stps" by simp
      then have "i = length stps - 1" by simp
      with I have "stps ! i = last stps" by (simp add: last_conv_nth)
      with i tr show ?thesis by (simp add: nth_append)
    qed
    then show "?I ?chunks' (idx + 1) (stps @ [?s])"
      by (simp add: merged_step_def)
  qed
  then obtain res where res: "runBPE L N text maxMerges = Some res"
    "if text = [] then steps res = []
       else \<exists>chunks' idx'. nul_free chunks' \<and> ?I chunks' idx' (steps res) \<and>
          stops maxMerges chunks' idx'"
    by blast
  from res(2) have "\<forall>i. i + 1 < length (steps res) \<longrightarrow>
        merge_transition (steps res ! i) (steps res ! (i + 1))"
    by (cases "text = []") auto
  with res(1) show ?thesis by blast
qed


subsection \<open>Runs on concrete texts\<close>

lemmas pattern_defs = GPT2_PAT_def literal_def opt_space_plus_def plus_class_def
  whitespace_lookahead_def is_whitespace_def is_other_def ascii_letter_def ascii_digit_def

lemmas encode_defs = TextEncoder_encode_def utf8_bytes_def scalar_value_def byte_token_def
  byte_unit_def is_visible_byte_def fromCharCode_def is_high_surrogate_def is_low_surrogate_def

lemma run_space:
  "runBPE ascii_letter ascii_digit [0x20] None =
     Some \<lparr>steps = [\<lparr>stepIndex = 0, mergedPair = None, frequency = None, newToken = None,
                      tokens = [[0x120]]\<rparr>]\<rparr>"
proof -
  have c: "initial_chunks ascii_letter ascii_digit [0x20] = [[[0x120]]]"
    by (simp add: initial_chunks_def pattern_defs encode_defs)
  have "runBPE_loop None [[[0x120]]] 1 [initial_step [[[0x120]]]] = Some [initial_step [[[0x120]]]]"
    by (rule runBPE_loop_stop) (simp add: stops_def countPairsAcrossChunks_def count_chunk_def)
  then show ?thesis
    by (simp add: runBPE_nonempty c initial_step_def)
qed

lemma run_aaa:
  "runBPE ascii_letter ascii_digit [0x61, 0x61, 0x61] None =
     Some \<lparr>steps =
       [\<lparr>stepIndex = 0, mergedPair = None, frequency = None, newToken = None,
          tokens = [[0x61], [0x61], [0x61]]\<rparr>,
        \<lparr>stepIndex = 1, mergedPair = Some ([0x61], [0x61]), frequency = Some 2,
          newToken = Some [0x61, 0x61], tokens = [[0x61, 0x61], [0x61]]\<rparr>]\<rparr>"
proof -
  have c: "initial_chunks ascii_letter ascii_digit [0x61, 0x61, 0x61] = [[[0x61], [0x61], [0x61]]]"
    by (simp add: initial_chunks_def pattern_defs encode_defs)
  have "runBPE_loop None [[[0x61], [0x61], [0x61]]] 1 [initial_step [[[0x61], [0x61], [0x61]]]] =
      Some [initial_step [[[0x61], [0x61], [0x61]]],
            merged_step 1 ([0x61], [0x61]) 2 [[[0x61, 0x61], [0x61]]]]"
    by code_simp
  then show ?thesis
    by (simp add: runBPE_nonempty c initial_step_def merged_step_def)
qed

lemma run_hello_hello:
  "runBPE ascii_letter ascii_digit
     [0x68, 0x65, 0x6C, 0x6C, 0x6F, 0x20, 0x68, 0x65, 0x6C, 0x6C, 0x6F] (Some 1) =
     Some \<lparr>steps =
       [\<lparr>stepIndex = 0, mergedPair = None, frequency = None, newToken = None,
          tokens = [[0x68], [0x65], [0x6C], [0x6C], [0x6F],
                    [0x120], [0x68], [0x65], [0x6C], [0x6C], [0x6F]]\<rparr>,
        \<lparr>stepIndex = 1, mergedPair = Some ([0x68], [0x65]), frequency = Some 2,
          newToken = Some [0x68, 0x65],
          tokens = [[0x68, 0x65], [0x6C], [0x6C], [0x6F],
                    [0x120], [0x68, 0x65], [0x6C], [0x6C], [0x6F]]\<rparr>]\<rparr>"
proof -
  let ?chunks = "[[[0x68], [0x65], [0x6C], [0x6C], [0x6F]],
                  [[0x120], [0x68], [0x65], [0x6C], [0x6C], [0x6F]]] :: Token list list"
  have c: "initial_chunks ascii_letter ascii_digit
     [0x68, 0x65, 0x6C, 0x6C, 0x6F, 0x20, 0x68, 0x65, 0x6C, 0x6C, 0x6F] = ?chunks"
    by (simp add: initial_chunks_def pattern_defs encode_defs)
  have "runBPE_loop (Some 1) ?chunks 1 [initial_step ?chunks] =
      Some [initial_step ?chunks,
            merged_step 1 ([0x68], [0x65]) 2
              [[[0x68, 0x65], [0x6C], [0x6C], [0x6F]],
               [[0x120], [0x68, 0x65], [0x6C], [0x6C], [0x6F]]]]"
    by code_simp
  then show ?thesis
    by (simp add: runBPE_nonempty c initial_step_def merged_step_def)
qed

lemma run_ab:
  "those (map encodeChunk (match_all ascii_letter ascii_digit (codePoints [0x61, 0x62]))) =
     Some [[[0x61], [0x62]]]"
proof -
  have "initial_chunks ascii_letter ascii_digit [0x61, 0x62] = [[[0x61], [0x62]]]"
    by (simp add: initial_chunks_def pattern_defs encode_defs)
  then show ?thesis by (simp only: those_encodeChunk)
qed

text \<open>
  Claim C8 as stated fails on white space: the text of one space is not empty after
  pre-tokenization (\<open>\s+(?!\S)\<close> matches it), and the trace has step 0 with the token
  U+0120 of the byte 32.
\<close>

theorem whitespace_only_trace_not_empty:
  "runBPE ascii_letter ascii_digit [0x20] None =
     Some \<lparr>steps = [\<lparr>stepIndex = 0, mergedPair = None, frequency = None, newToken = None,
                      tokens = [[0x120]]\<rparr>]\<rparr>"
  by (rule run_space)

subsection \<open>Instances\<close>

theorem runBPE_total_and_empty_trace_witness:
  "\<exists>res. runBPE ascii_letter ascii_digit [0x20] None = Some res \<and> steps res \<noteq> [] \<and>
     runBPE ascii_letter ascii_digit [] None = Some \<lparr>steps = []\<rparr>"
  using runBPE_total_and_empty_trace [of ascii_letter ascii_digit "[0x20]" None]
  by auto

theorem maxMerges_bound_witness:
  "0 < (1 :: int) \<and>
   (\<exists>res. runBPE ascii_letter ascii_digit
       [0x68, 0x65, 0x6C, 0x6C, 0x6F, 0x20, 0x68, 0x65, 0x6C, 0x6C, 0x6F] (Some 1) = Some res \<and>
     length (steps res) = 2 \<and> length (steps res) \<le> nat 1 + 1 \<and>
     (\<forall>s \<in> set (steps res). int (stepIndex s) \<le> 1))"
  using maxMerges_bound [of 1 ascii_letter ascii_digit
      "[0x68, 0x65, 0x6C, 0x6C, 0x6F, 0x20, 0x68, 0x65, 0x6C, 0x6C, 0x6F]"]
  by (simp add: run_hello_hello)

theorem trace_step_shape_witness:
  "\<exists>res. runBPE ascii_letter ascii_digit [0x61, 0x61, 0x61] None = Some res \<and>
     length (steps res) = 2 \<and> step_shape 0 (steps res ! 0) \<and> step_shape 1 (steps res ! 1)"
proof -
  from trace_step_shape [of ascii_letter ascii_digit "[0x61, 0x61, 0x61]" None]
  obtain res where res: "runBPE ascii_letter ascii_digit [0x61, 0x61, 0x61] None = Some res"
    "\<forall>i < length (steps res). step_shape i (steps res ! i)"
    by blast
  from res(1) have "length (steps res) = 2" by (auto simp: run_aaa)
  with res show ?thesis by auto
qed

theorem frequency_floor_witness:
  "\<exists>res. runBPE ascii_letter ascii_digit [0x61, 0x62] None = Some res \<and>
     those (map encodeChunk (match_all ascii_letter ascii_digit (codePoints [0x61, 0x62]))) =
       Some [[[0x61], [0x62]]] \<and>
     distinct (all_pairs [[[0x61], [0x62 :: codeunit]]]) \<and>
     steps res = [initial_step [[[0x61], [0x62]]]]"
proof -
  from frequency_floor [of ascii_letter ascii_digit "[0x61, 0x62]" None]
  obtain res where res: "runBPE ascii_letter ascii_digit [0x61, 0x62] None = Some res"
    "\<forall>chunks. those (map encodeChunk (match_all ascii_letter ascii_digit (codePoints [0x61, 0x62]))) =
        Some chunks \<and> distinct (all_pairs chunks) \<longrightarrow>
        steps res = (if [0x61, 0x62 :: codeunit] = [] then [] else [initial_step chunks])"
    by blast
  have d: "distinct (all_pairs [[[0x61], [0x62 :: codeunit]]])"
    by (simp add: all_pairs_def chunk_pairs_def)
  from res(2) run_ab d have "steps res = [initial_step [[[0x61], [0x62]]]]" by simp
  with res(1) run_ab d show ?thesis by blast
qed

theorem token_count_decreases_witness:
  "\<exists>res. runBPE ascii_letter ascii_digit [0x61, 0x61, 0x61] None = Some res \<and>
     length (steps res) = 2 \<and> merge_transition (steps res ! 0) (steps res ! 1) \<and>
     frequency (steps res ! 1) = Some 2 \<and>
     length (tokens (steps res ! 0)) = length (tokens (steps res ! 1)) + 1"
proof -
  from token_count_decreases [of ascii_letter ascii_digit "[0x61, 0x61, 0x61]" None]
  obtain res where res: "runBPE ascii_letter ascii_digit [0x61, 0x61, 0x61] None = Some res"
    "\<forall>i. i + 1 < length (steps res) \<longrightarrow> merge_transition (steps res ! i) (steps res ! (i + 1))"
    by blast
  from res(1) have r: "res = \<lparr>steps =
       [\<lparr>stepIndex = 0, mergedPair = None, frequency = None, newToken = None,
          tokens = [[0x61], [0x61], [0x61]]\<rparr>,
        \<lparr>stepIndex = 1, mergedPair = Some ([0x61], [0x61]), frequency = Some 2,
          newToken = Some [0x61, 0x61], tokens = [[0x61, 0x61], [0x61]]\<rparr>]\<rparr>"
    by (simp add: run_aaa)
  then have len: "length (steps res) = 2" by simp
  with res(2) have "merge_transition (steps res ! 0) (steps res ! (0 + 1))" by simp
  then have "merge_transition (steps res ! 0) (steps res ! 1)" by simp
  moreover from r have "frequency (steps res ! 1) = Some 2"
    "length (tokens (steps res ! 0)) = length (tokens (steps res ! 1)) + 1"
    by simp_all
  ultimately show ?thesis using res(1) len by blast
qed

subsection \<open>Concatenation, NUL-free tokens and the selected pair\<close>

text \<open>
  Claim C2. \<open>runBPE\<close> returns a trace in which, for every step, the code units of the
  concatenated tokens, mapped back through the inverse of the byte-to-unicode table, are
  exactly the bytes \<open>TextEncoder\<close> gives for the input text. The chunks of the
  pre-tokenizer concatenate to the text, and none of them is empty.
\<close>

theorem concatenation_invariant:
  "\<exists>res. runBPE L N text maxMerges = Some res \<and>
     (\<forall>s \<in> set (steps res).
        map unicode_to_byte (concat (tokens s)) = map Some (TextEncoder_encode text)) \<and>
     concat (match_all L N (codePoints text)) = text \<and>
     [] \<notin> set (match_all L N (codePoints text))"
proof -
  define X where "X = concat (concat (initial_chunks L N text))"
  let ?I = "\<lambda>(chunks :: Token list list) (idx :: nat) (stps :: BPEStep list).
     concat (concat chunks) = X \<and> (\<forall>s \<in> set stps. concat (tokens s) = X)"
  have "\<exists>res. runBPE L N text maxMerges = Some res \<and>
      (if text = [] then steps res = []
       else \<exists>chunks' idx'. nul_free chunks' \<and> ?I chunks' idx' (steps res) \<and>
          stops maxMerges chunks' idx')"
  proof (rule runBPE_rule)
    show "?I (initial_chunks L N text) 1 [initial_step (initial_chunks L N text)]"
      by (simp add: initial_step_def X_def)
  next
    fix chunks idx stps a b and bf :: nat
    assume I: "?I chunks idx stps"
    have "concat (concat (map (merge_spec a b) chunks)) = concat (concat chunks)"
      by (induction chunks) (simp_all add: concat_merge_spec)
    with I show "?I (map (merge_spec a b) chunks) (idx + 1)
            (stps @ [merged_step idx (a, b) bf (map (merge_spec a b) chunks)])"
      by (simp add: merged_step_def)
  qed
  then obtain res where res: "runBPE L N text maxMerges = Some res"
    "if text = [] then steps res = []
       else \<exists>chunks' idx'. nul_free chunks' \<and> ?I chunks' idx' (steps res) \<and>
          stops maxMerges chunks' idx'"
    by blast
  from res(2) have "\<forall>s \<in> set (steps res). concat (tokens s) = X"
    by (cases "text = []") auto
  then have bytes: "\<forall>s \<in> set (steps res).
        map unicode_to_byte (concat (tokens s)) = map Some (TextEncoder_encode text)"
    by (simp add: X_def decode_initial_chunks)
  have cat: "concat (match_all L N (codePoints text)) = text"
    by (simp add: match_all_concat codePoints_units)
  have ne: "[] \<notin> set (match_all L N (codePoints text))"
    using match_all_chunks_nonempty [OF wf_points_codePoints] by blast
  from res(1) bytes cat ne show ?thesis by blast
qed

lemma byte_token_visible: "b < 256 \<Longrightarrow> \<exists>c. byte_token b = [c] \<and> 0x21 \<le> unat c"
  using BYTE_TO_UNICODE_unit(2) [of b] byte_unit_bounds [of b]
  by (simp add: byte_token_def fromCharCode_def)

lemma initial_tokens_units:
  assumes "t \<in> set (concat (initial_chunks L N text))"
  shows "\<exists>c. t = [c] \<and> 0x21 \<le> unat c"
proof -
  from assms obtain b where "b \<in> set (TextEncoder_encode text)" "t = byte_token b"
    unfolding initial_chunks_flat by auto
  with TextEncoder_encode_bound [of b "text"] byte_token_visible [of b] show ?thesis by auto
qed

lemma nul_free_tokens: "nul_free chunks \<Longrightarrow> t \<in> set (concat chunks) \<Longrightarrow> 0 \<notin> set t"
  by (auto simp: nul_free_def)

text \<open>
  Claim C9. \<open>runBPE\<close> returns a trace in which no token contains the code unit 0; the
  tokens of step 0 are single code units of at least U+0021. So for tokens of the trace
  the key \<open>a + PAIR_SEP + b\<close> determines the pair \<open>(a, b)\<close>, and splitting the key at
  \<open>PAIR_SEP\<close> gives back exactly \<open>a\<close> and \<open>b\<close>.
\<close>

theorem tokens_never_contain_nul:
  "\<exists>res. runBPE L N text maxMerges = Some res \<and>
     (\<forall>s \<in> set (steps res). \<forall>t \<in> set (tokens s). 0 \<notin> set t) \<and>
     (\<forall>s \<in> set (steps res). stepIndex s = 0 \<longrightarrow>
        (\<forall>t \<in> set (tokens s). \<exists>c. t = [c] \<and> 0x21 \<le> unat c)) \<and>
     (\<forall>s \<in> set (steps res). \<forall>s' \<in> set (steps res).
        \<forall>a \<in> set (tokens s). \<forall>b \<in> set (tokens s).
        \<forall>a' \<in> set (tokens s'). \<forall>b' \<in> set (tokens s').
          as_pair (split_unit (hd PAIR_SEP) (a @ PAIR_SEP @ b)) = Some (a, b) \<and>
          (a @ PAIR_SEP @ b = a' @ PAIR_SEP @ b' \<longrightarrow> a = a' \<and> b = b'))"
proof -
  let ?I = "\<lambda>(chunks :: Token list list) (idx :: nat) (stps :: BPEStep list).
     0 < idx \<and> (\<forall>s \<in> set stps. \<forall>t \<in> set (tokens s). 0 \<notin> set t) \<and>
     (\<forall>s \<in> set stps. stepIndex s = 0 \<longrightarrow>
        (\<forall>t \<in> set (tokens s). \<exists>c. t = [c] \<and> 0x21 \<le> unat c))"
  have "\<exists>res. runBPE L N text maxMerges = Some res \<and>
      (if text = [] then steps res = []
       else \<exists>chunks' idx'. nul_free chunks' \<and> ?I chunks' idx' (steps res) \<and>
          stops maxMerges chunks' idx')"
  proof (rule runBPE_rule)
    show "?I (initial_chunks L N text) 1 [initial_step (initial_chunks L N text)]"
      using nul_free_tokens [OF nul_free_initial_chunks, of _ L N "text"]
        initial_tokens_units [of _ L N "text"]
      by (simp add: initial_step_def)
  next
    fix chunks idx stps a b and bf :: nat
    assume nf: "nul_free chunks" and I: "?I chunks idx stps"
      and ab: "(a, b) \<in> set (all_pairs chunks)"
    have "nul_free (map (merge_spec a b) chunks)" using nf ab by (rule nul_free_merge)
    then have "\<forall>t \<in> set (concat (map (merge_spec a b) chunks)). 0 \<notin> set t"
      using nul_free_tokens by blast
    with I show "?I (map (merge_spec a b) chunks) (idx + 1)
            (stps @ [merged_step idx (a, b) bf (map (merge_spec a b) chunks)])"
      by (simp add: merged_step_def)
  qed
  then obtain res where res: "runBPE L N text maxMerges = Some res"
    "if text = [] then steps res = []
       else \<exists>chunks' idx'. nul_free chunks' \<and> ?I chunks' idx' (steps res) \<and>
          stops maxMerges chunks' idx'"
    by blast
  from res(2) have nul: "\<forall>s \<in> set (steps res). \<forall>t \<in> set (tokens s). 0 \<notin> set t"
    and init: "\<forall>s \<in> set (steps res). stepIndex s = 0 \<longrightarrow>
        (\<forall>t \<in> set (tokens s). \<exists>c. t = [c] \<and> 0x21 \<le> unat c)"
    by (cases "text = []"; auto)+
  have key: "as_pair (split_unit (hd PAIR_SEP) (a @ PAIR_SEP @ b)) = Some (a, b) \<and>
          (a @ PAIR_SEP @ b = a' @ PAIR_SEP @ b' \<longrightarrow> a = a' \<and> b = b')"
    if "0 \<notin> set a" "0 \<notin> set b" "0 \<notin> set a'" "0 \<notin> set b'" for a b a' b' :: Token
    using that pair_key_inj [OF that]
    by (simp add: PAIR_SEP_def split_unit_key as_pair_def pair_key_def)
  from nul have "\<forall>s \<in> set (steps res). \<forall>s' \<in> set (steps res).
        \<forall>a \<in> set (tokens s). \<forall>b \<in> set (tokens s).
        \<forall>a' \<in> set (tokens s'). \<forall>b' \<in> set (tokens s').
          as_pair (split_unit (hd PAIR_SEP) (a @ PAIR_SEP @ b)) = Some (a, b) \<and>
          (a @ PAIR_SEP @ b = a' @ PAIR_SEP @ b' \<longrightarrow> a = a' \<and> b = b')"
    by (intro ballI key) blast+
  with res(1) nul init show ?thesis by blast
qed

text \<open>
  Claim C3. In a round of the loop (its chunks hold no NUL, and there is at least one
  adjacent pair), the key selected splits into a pair \<open>q\<close> of the scan whose count over
  the pairs of all chunks together is \<open>bestFreq\<close>; no pair has a higher count, and every
  pair met by the scan before the first occurrence of \<open>q\<close> has a strictly lower count.
  When the loop goes on, \<open>q\<close> is the pair it merges and records.
\<close>

theorem selected_pair_first_most_frequent:
  assumes "nul_free chunks" "all_pairs chunks \<noteq> []"
    and "select_best (countPairsAcrossChunks chunks) = (bestKey, bestFreq)"
  shows "\<exists>p < length (all_pairs chunks).
      as_pair (split_unit (hd PAIR_SEP) bestKey) = Some (all_pairs chunks ! p) \<and>
      bestFreq = count_list (all_pairs chunks) (all_pairs chunks ! p) \<and>
      (\<forall>q \<in> set (all_pairs chunks). count_list (all_pairs chunks) q \<le> bestFreq) \<and>
      (\<forall>j < p. count_list (all_pairs chunks) (all_pairs chunks ! j) < bestFreq) \<and>
      (\<not> stops maxMerges chunks idx \<longrightarrow>
         runBPE_loop maxMerges chunks idx stps =
           runBPE_loop maxMerges
             (map (\<lambda>chunk. mergePairInChunk chunk (all_pairs chunks ! p)) chunks) (idx + 1)
             (stps @ [merged_step idx (all_pairs chunks ! p) bestFreq
                (map (\<lambda>chunk. mergePairInChunk chunk (all_pairs chunks ! p)) chunks)]))"
proof -
  from select_best_pairs [OF assms] obtain p where p: "p < length (all_pairs chunks)"
      "as_pair (split_unit (hd PAIR_SEP) bestKey) = Some (all_pairs chunks ! p)"
      "bestFreq = count_list (all_pairs chunks) (all_pairs chunks ! p)"
      "\<forall>q \<in> set (all_pairs chunks). count_list (all_pairs chunks) q \<le> bestFreq"
      "\<forall>j < p. count_list (all_pairs chunks) (all_pairs chunks ! j) < bestFreq"
    by blast
  have "runBPE_loop maxMerges chunks idx stps =
           runBPE_loop maxMerges
             (map (\<lambda>chunk. mergePairInChunk chunk (all_pairs chunks ! p)) chunks) (idx + 1)
             (stps @ [merged_step idx (all_pairs chunks ! p) bestFreq
                (map (\<lambda>chunk. mergePairInChunk chunk (all_pairs chunks ! p)) chunks)])"
    if "\<not> stops maxMerges chunks idx"
    using that assms(3) p(2) by (rule runBPE_loop_go)
  with p show ?thesis by blast
qed


theorem concatenation_invariant_witness:
  "\<exists>res. runBPE ascii_letter ascii_digit
       [0x68, 0x65, 0x6C, 0x6C, 0x6F, 0x20, 0x68, 0x65, 0x6C, 0x6C, 0x6F] (Some 1) = Some res \<and>
     length (steps res) = 2 \<and>
     map unicode_to_byte (concat (tokens (steps res ! 1))) =
       map Some [104, 101, 108, 108, 111, 32, 104, 101, 108, 108, 111] \<and>
     match_all ascii_letter ascii_digit
       (codePoints [0x68, 0x65, 0x6C, 0x6C, 0x6F, 0x20, 0x68, 0x65, 0x6C, 0x6C, 0x6F]) =
       [[0x68, 0x65, 0x6C, 0x6C, 0x6F], [0x20, 0x68, 0x65, 0x6C, 0x6C, 0x6F]]"
proof -
  let ?T = "[0x68, 0x65, 0x6C, 0x6C, 0x6F, 0x20, 0x68, 0x65, 0x6C, 0x6C, 0x6F] :: jsstring"
  from concatenation_invariant [of ascii_letter ascii_digit ?T "Some 1"]
  obtain res where res: "runBPE ascii_letter ascii_digit ?T (Some 1) = Some res"
    "\<forall>s \<in> set (steps res).
        map unicode_to_byte (concat (tokens s)) = map Some (TextEncoder_encode ?T)"
    by blast
  from res(1) have len: "length (steps res) = 2" by (auto simp: run_hello_hello)
  then have "steps res ! 1 \<in> set (steps res)" by simp
  with res(2) have "map unicode_to_byte (concat (tokens (steps res ! 1))) =
      map Some (TextEncoder_encode ?T)"
    by blast
  moreover have "TextEncoder_encode ?T = [104, 101, 108, 108, 111, 32, 104, 101, 108, 108, 111]"
    by (simp add: encode_defs)
  moreover have "match_all ascii_letter ascii_digit (codePoints ?T) =
       [[0x68, 0x65, 0x6C, 0x6C, 0x6F], [0x20, 0x68, 0x65, 0x6C, 0x6C, 0x6F]]"
    by (simp add: pattern_defs encode_defs)
  ultimately show ?thesis using res(1) len by auto
qed

theorem tokens_never_contain_nul_witness:
  "\<exists>res. runBPE ascii_letter ascii_digit [0x61, 0x61, 0x61] None = Some res \<and>
     tokens (steps res ! 1) = [[0x61, 0x61], [0x61]] \<and>
     0 \<notin> set ([0x61, 0x61] :: Token) \<and>
     as_pair (split_unit (hd PAIR_SEP) ([0x61, 0x61] @ PAIR_SEP @ [0x61])) =
       Some ([0x61, 0x61], [0x61])"
proof -
  from tokens_never_contain_nul [of ascii_letter ascii_digit "[0x61, 0x61, 0x61]" None]
  obtain res where res: "runBPE ascii_letter ascii_digit [0x61, 0x61, 0x61] None = Some res"
    "\<forall>s \<in> set (steps res). \<forall>t \<in> set (tokens s). 0 \<notin> set t"
    "\<forall>s \<in> set (steps res). \<forall>s' \<in> set (steps res).
        \<forall>a \<in> set (tokens s). \<forall>b \<in> set (tokens s).
        \<forall>a' \<in> set (tokens s'). \<forall>b' \<in> set (tokens s').
          as_pair (split_unit (hd PAIR_SEP) (a @ PAIR_SEP @ b)) = Some (a, b) \<and>
          (a @ PAIR_SEP @ b = a' @ PAIR_SEP @ b' \<longrightarrow> a = a' \<and> b = b')"
    by blast
  from res(1) have t: "tokens (steps res ! 1) = [[0x61, 0x61], [0x61]]"
    and len: "length (steps res) = 2"
    by (auto simp: run_aaa)
  from len have s: "steps res ! 1 \<in> set (steps res)" by simp
  from t have a: "[0x61, 0x61] \<in> set (tokens (steps res ! 1))"
    and b: "[0x61] \<in> set (tokens (steps res ! 1))"
    by simp_all
  from res(2) s a have "0 \<notin> set ([0x61, 0x61] :: Token)" by blast
  moreover from res(3) s a b
  have "as_pair (split_unit (hd PAIR_SEP) ([0x61, 0x61] @ PAIR_SEP @ [0x61])) =
       Some ([0x61, 0x61], [0x61])"
    by blast
  ultimately show ?thesis using res(1) t by blast
qed

theorem selected_pair_first_most_frequent_witness:
  "nul_free [[[0x61], [0x62], [0x61], [0x62]], [[0x62], [0x61]]] \<and>
   all_pairs [[[0x61], [0x62], [0x61], [0x62]], [[0x62], [0x61 :: codeunit]]] =
     [([0x61], [0x62]), ([0x62], [0x61]), ([0x61], [0x62]), ([0x62], [0x61])] \<and>
   select_best (countPairsAcrossChunks [[[0x61], [0x62], [0x61], [0x62]], [[0x62], [0x61]]]) =
     ([0x61, 0, 0x62], 2) \<and>
   as_pair (split_unit (hd PAIR_SEP) [0x61, 0, 0x62]) = Some ([0x61], [0x62]) \<and>
   (\<exists>p < 4.
      as_pair (split_unit (hd PAIR_SEP) [0x61, 0, 0x62]) =
        Some (all_pairs [[[0x61], [0x62], [0x61], [0x62]], [[0x62], [0x61]]] ! p) \<and>
      (\<forall>j < p. count_list (all_pairs [[[0x61], [0x62], [0x61], [0x62]], [[0x62], [0x61]]])
         (all_pairs [[[0x61], [0x62], [0x61], [0x62]], [[0x62], [0x61]]] ! j) < 2))"
proof -
  let ?C = "[[[0x61], [0x62], [0x61], [0x62]], [[0x62], [0x61]]] :: Token list list"
  have nf: "nul_free ?C" by (simp add: nul_free_def)
  have ps: "all_pairs ?C = [([0x61], [0x62]), ([0x62], [0x61]), ([0x61], [0x62]), ([0x62], [0x61])]"
    by (simp add: all_pairs_def chunk_pairs_def)
  then have ne: "all_pairs ?C \<noteq> []" by simp
  have sel: "select_best (countPairsAcrossChunks ?C) = ([0x61, 0, 0x62], 2)"
    by code_simp
  have sp: "as_pair (split_unit (hd PAIR_SEP) [0x61, 0, 0x62]) = Some ([0x61], [0x62])"
    by (simp add: PAIR_SEP_def as_pair_def)
  from selected_pair_first_most_frequent [OF nf ne sel, of None 1 "[]"]
  obtain p where p: "p < length (all_pairs ?C)"
      "as_pair (split_unit (hd PAIR_SEP) [0x61, 0, 0x62]) = Some (all_pairs ?C ! p)"
      "\<forall>j < p. count_list (all_pairs ?C) (all_pairs ?C ! j) < 2"
    by blast
  from p(1) ps have "p < 4" by simp
  with p(2,3) have "\<exists>p < 4.
      as_pair (split_unit (hd PAIR_SEP) [0x61, 0, 0x62]) = Some (all_pairs ?C ! p) \<and>
      (\<forall>j < p. count_list (all_pairs ?C) (all_pairs ?C ! j) < 2)"
    by blast
  with nf ps sel sp show ?thesis by (intro conjI)
qed

end
